theory Spec2Isabelle
  imports Complex_Main "HOL-Library.AList" "HOL-Library.Log_Nat" "HOL-Library.Signed_Division"
begin

section \<open>Documents, payloads and the document store\<close>

text \<open>
  The migration scripts of the toolkit read every document of a Firestore collection as a
  Python dict (\<^verbatim>\<open>doc.to_dict()\<close>), build a dict \<^verbatim>\<open>update_data\<close> of field changes and stage it
  with \<^verbatim>\<open>batch.update(doc.reference, update_data)\<close>.

  A field value is dynamically typed. Timestamps are kept as whole microseconds since the
  Unix epoch (the resolution of a Python \<^verbatim>\<open>datetime\<close>). A finite floating point number is
  kept as the rational it denotes; \<^verbatim>\<open>nan\<close> and the two infinities (\<open>VInf True\<close> the positive one)
  are values of their own. The rounding of double arithmetic is written out where the scripts
  compute with doubles.
\<close>

datatype val =
    VNull
  | VBool bool
  | VInt int
  | VFloat rat
  | VNaN
  | VInf bool
  | VStr string
  | VTime int
  | VList "val list"
  | VMap "(string \<times> val) list"

text \<open>A staged field change: a new value, or the sentinel \<^verbatim>\<open>firestore.DELETE_FIELD\<close>.\<close>

datatype upd = SetTo val | DELETE_FIELD

type_synonym doc_data = "string \<rightharpoonup> val"

text \<open>
  \<^verbatim>\<open>update_data\<close> is a Python dict filled by assignments \<^verbatim>\<open>update_data[k] = v\<close>: an
  assignment to a key that is already there replaces its value in place, any other one
  appends the key. That is \<^const>\<open>AList.update\<close> on an association list; the dict is falsy
  exactly when the list is empty.
\<close>

type_synonym payload = "(string \<times> upd) list"

text \<open>
  What the store does with a committed update (the contract of \<^verbatim>\<open>update\<close> in the document
  store client): every staged field is set to its new value or removed, every other field
  of the document is kept.
\<close>

fun apply_change :: "string \<times> upd \<Rightarrow> doc_data \<Rightarrow> doc_data" where
  "apply_change (k, SetTo v) d = d(k \<mapsto> v)"
| "apply_change (k, DELETE_FIELD) d = d(k := None)"

definition apply_update :: "payload \<Rightarrow> doc_data \<Rightarrow> doc_data" where
  "apply_update update_data d = fold apply_change update_data d"

section \<open>The batched write loop shared by the migration scripts\<close>

text \<open>
  Every \<^verbatim>\<open>migrate_*\<close> function has the same skeleton (\<^verbatim>\<open>migrate_case_style.py\<close> lines 150-179,
  \<^verbatim>\<open>migrate_data_schema.py\<close> lines 85-122, \<^verbatim>\<open>migrate_name_fields_i18n.py\<close> lines 93-147,
  \<^verbatim>\<open>migrate_content_fields_i18n.py\<close> lines 165-220):

  \<^verbatim>\<open>
    docs = collection_ref.stream()
    batch = db.batch()
    docs_processed = 0
    for doc in docs:
        update_data = {}
        data = doc.to_dict()
        ... fill update_data from data ...
        if update_data:
            batch.update(doc.reference, update_data)
            docs_processed += 1
            if docs_processed % 499 == 0:
                batch.commit()
                batch = db.batch()
    if docs_processed > 0:
        batch.commit()
  \<close>

  The scripts differ only in the part that fills \<^verbatim>\<open>update_data\<close>, which is the parameter
  \<open>body\<close> below. That part may raise, which ends the run where it stands: batches committed
  before stay committed, the batch in flight is never committed.

  The state of a run: the batch in flight, the batches committed so far (oldest first) and
  the counter. (\<^verbatim>\<open>migrate_content_fields_i18n.py\<close> calls the counter \<^verbatim>\<open>updates_planned\<close>.)

  The exceptions of the bodies: \<^verbatim>\<open>TypeError\<close> of a dict lookup with an unhashable key, and
  \<open>DateOutOfRange\<close> for the \<^verbatim>\<open>ValueError\<close> or \<^verbatim>\<open>OverflowError\<close> that \<^verbatim>\<open>datetime.fromtimestamp\<close>
  raises on a number that is no date of the years 1 to 9999.
\<close>

datatype py_error = TypeError | DateOutOfRange

record run_state =
  batch :: "(string \<times> payload) list"
  committed :: "(string \<times> payload) list list"
  docs_processed :: nat

definition init_state :: run_state where
  "init_state = \<lparr>batch = [], committed = [], docs_processed = 0\<rparr>"

text \<open>\<^verbatim>\<open>batch.update(doc.reference, update_data); docs_processed += 1\<close>\<close>

definition stage_update :: "string \<Rightarrow> payload \<Rightarrow> run_state \<Rightarrow> run_state" where
  "stage_update doc_id update_data s =
     s\<lparr>batch := batch s @ [(doc_id, update_data)], docs_processed := docs_processed s + 1\<rparr>"

text \<open>\<^verbatim>\<open>batch.commit(); batch = db.batch()\<close>\<close>

definition commit :: "run_state \<Rightarrow> run_state" where
  "commit s = s\<lparr>committed := committed s @ [batch s], batch := []\<rparr>"

text \<open>The tail of the loop body, from \<^verbatim>\<open>if update_data:\<close> on.\<close>

definition visit :: "string \<Rightarrow> payload \<Rightarrow> run_state \<Rightarrow> run_state" where
  "visit doc_id update_data s =
     (if update_data \<noteq> [] then
        (let s' = stage_update doc_id update_data s
         in if docs_processed s' mod 499 = 0 then commit s' else s')
      else s)"

fun stream_loop ::
  "(doc_data \<Rightarrow> py_error + payload) \<Rightarrow> (string \<times> doc_data) list \<Rightarrow> run_state
     \<Rightarrow> py_error option \<times> run_state" where
  "stream_loop body [] s = (None, s)"
| "stream_loop body ((doc_id, data) # docs) s =
     (case body data of
        Inl e \<Rightarrow> (Some e, s)
      | Inr update_data \<Rightarrow> stream_loop body docs (visit doc_id update_data s))"

text \<open>The whole function: the loop, then \<^verbatim>\<open>if docs_processed > 0: batch.commit()\<close>.\<close>

definition final_commit :: "py_error option \<times> run_state \<Rightarrow> py_error option \<times> run_state" where
  "final_commit r =
     (case r of
        (Some e, s) \<Rightarrow> (Some e, s)
      | (None, s) \<Rightarrow> (None, if docs_processed s > 0 then commit s else s))"

definition run_migration ::
  "(doc_data \<Rightarrow> py_error + payload) \<Rightarrow> (string \<times> doc_data) list \<Rightarrow> py_error option \<times> run_state" where
  "run_migration body docs = final_commit (stream_loop body docs init_state)"

text \<open>
  The closing summary line: the count of updated documents when there was one, the
  "no updates needed" message otherwise.
\<close>

datatype summary = Completed nat | NoUpdatesNeeded

definition report :: "run_state \<Rightarrow> summary" where
  "report s = (if docs_processed s > 0 then Completed (docs_processed s) else NoUpdatesNeeded)"

text \<open>
  The points of a run, for statements about every moment of it: the head of the loop
  before each document (and after the last one), the point between \<^verbatim>\<open>batch.update\<close> and
  the test of the counter, and the return of the function.
\<close>

datatype point = LoopHead run_state | Staged run_state | Returned run_state

fun state_of :: "point \<Rightarrow> run_state" where
  "state_of (LoopHead s) = s"
| "state_of (Staged s) = s"
| "state_of (Returned s) = s"

fun loop_points ::
  "(doc_data \<Rightarrow> py_error + payload) \<Rightarrow> (string \<times> doc_data) list \<Rightarrow> run_state \<Rightarrow> point list" where
  "loop_points body [] s = [LoopHead s]"
| "loop_points body ((doc_id, data) # docs) s =
     LoopHead s #
       (case body data of
          Inl e \<Rightarrow> []
        | Inr update_data \<Rightarrow>
            (if update_data \<noteq> [] then [Staged (stage_update doc_id update_data s)] else [])
            @ loop_points body docs (visit doc_id update_data s))"

definition run_points ::
  "(doc_data \<Rightarrow> py_error + payload) \<Rightarrow> (string \<times> doc_data) list \<Rightarrow> point list" where
  "run_points body docs =
     loop_points body docs init_state @ [Returned (snd (run_migration body docs))]"

text \<open>The updates a run stages, in order, up to the first document whose body raises.\<close>

fun staged_updates ::
  "(doc_data \<Rightarrow> py_error + payload) \<Rightarrow> (string \<times> doc_data) list \<Rightarrow> (string \<times> payload) list" where
  "staged_updates body [] = []"
| "staged_updates body ((doc_id, data) # docs) =
     (case body data of
        Inl e \<Rightarrow> []
      | Inr update_data \<Rightarrow>
          (if update_data \<noteq> [] then [(doc_id, update_data)] else []) @ staged_updates body docs)"

text \<open>
  The collection after a run: every committed update applied, in commit order, to the
  document it names. An update never adds or removes a document.
\<close>

definition store_after :: "(string \<times> payload) list list \<Rightarrow> (string \<times> doc_data) list \<Rightarrow> (string \<times> doc_data) list" where
  "store_after batches docs =
     map (\<lambda>(doc_id, data).
            (doc_id, fold apply_update (map snd (filter (\<lambda>w. fst w = doc_id) (concat batches))) data))
         docs"

section \<open>\<^verbatim>\<open>migrate_case_style.py\<close>: renaming camelCase fields\<close>

text \<open>
  \<^verbatim>\<open>
    for old_name, new_name in field_map.items():
        if old_name in data:
            updates_made = True
            update_data[new_name] = data[old_name]
            update_data[old_name] = firestore.DELETE_FIELD
  \<close>
  \<^verbatim>\<open>field_map\<close> is a dict literal, read in the order it is written. The same loop is lines
  123-126 and 196-199 of \<^verbatim>\<open>migrate_name_fields_i18n.py\<close>, where \<^verbatim>\<open>update_data\<close> may already
  hold an entry, so the dict built so far is an argument. The flag \<^verbatim>\<open>updates_made\<close> only
  selects a message and is true exactly when \<^verbatim>\<open>docs_processed > 0\<close>.
\<close>

fun rename_fields :: "(string \<times> string) list \<Rightarrow> doc_data \<Rightarrow> payload \<Rightarrow> payload" where
  "rename_fields [] data update_data = update_data"
| "rename_fields ((old_name, new_name) # field_map) data update_data =
     (case data old_name of
        Some v \<Rightarrow>
          rename_fields field_map data
            (AList.update old_name DELETE_FIELD (AList.update new_name (SetTo v) update_data))
      | None \<Rightarrow> rename_fields field_map data update_data)"

definition migrate_collection ::
  "(string \<times> string) list \<Rightarrow> (string \<times> doc_data) list \<Rightarrow> py_error option \<times> run_state" where
  "migrate_collection field_map docs =
     run_migration (\<lambda>data. Inr (rename_fields field_map data [])) docs"

definition LISTINGS_FIELD_MAP :: "(string \<times> string) list" where
  "LISTINGS_FIELD_MAP =
    [(''acceptsStudents'', ''accepts_students''),
     (''availableFrom'', ''available_from''),
     (''availableFrom_unix'', ''available_from_unix''),
     (''bathroomCount'', ''bathroom_count''),
     (''coverImageUrl'', ''cover_image_url''),
     (''createdAt'', ''created_at''),
     (''createdAt_unix'', ''created_at_unix''),
     (''descriptionEn'', ''description_en''),
     (''descriptionEs'', ''description_es''),
     (''hasAC'', ''has_ac''),
     (''hasDoorman'', ''has_doorman''),
     (''hasElevator'', ''has_elevator''),
     (''hasLivingRoom'', ''has_living_room''),
     (''hasWifi'', ''has_wifi''),
     (''imageUrls'', ''image_urls''),
     (''isFurnished'', ''is_furnished''),
     (''landlordName'', ''landlord_name''),
     (''landlordUid'', ''landlord_uid''),
     (''minimumStayMonths'', ''minimum_stay_months''),
     (''petsAllowed'', ''pets_allowed''),
     (''propertyStrengthsEn'', ''property_strengths_en''),
     (''propertyStrengthsEs'', ''property_strengths_es''),
     (''rentalType'', ''rental_type''),
     (''roomCount'', ''room_count''),
     (''smokingAllowed'', ''smoking_allowed''),
     (''sourceLanguage'', ''source_language''),
     (''tenantStrengthsSearchedEn'', ''tenant_strengths_searched_en''),
     (''tenantStrengthsSearchedEs'', ''tenant_strengths_searched_es''),
     (''titleEn'', ''title_en''),
     (''titleEs'', ''title_es''),
     (''updatedAt'', ''updated_at''),
     (''updatedAt_unix'', ''updated_at_unix'')]"

definition USERS_FIELD_MAP :: "(string \<times> string) list" where
  "USERS_FIELD_MAP =
    [(''bioEn'', ''bio_en''),
     (''bioEs'', ''bio_es''),
     (''createdAt'', ''created_at''),
     (''createdAt_unix'', ''created_at_unix''),
     (''displayName'', ''display_name''),
     (''idVerificationStatus'', ''id_verification_status''),
     (''isVerified'', ''is_verified''),
     (''photoURL'', ''photo_url''),
     (''propertyStrengthsSearchedEn'', ''property_strengths_searched_en''),
     (''propertyStrengthsSearchedEs'', ''property_strengths_searched_es''),
     (''sourceLanguage'', ''source_language''),
     (''tenantStrengthsEn'', ''tenant_strengths_en''),
     (''tenantStrengthsEs'', ''tenant_strengths_es''),
     (''desiredMoveInDate'', ''desired_move_in_date''),
     (''desiredMoveInDate_unix'', ''desired_move_in_date_unix''),
     (''desiredMoveOutDate'', ''desired_move_out_date''),
     (''desiredMoveOutDate_unix'', ''desired_move_out_date_unix''),
     (''genderEn'', ''gender_en''),
     (''genderEs'', ''gender_es''),
     (''hasPets'', ''has_pets''),
     (''minimumStayMonths'', ''minimum_stay_months''),
     (''needsAC'', ''needs_ac''),
     (''needsElevator'', ''needs_elevator''),
     (''needsFurnished'', ''needs_furnished''),
     (''needsLivingRoom'', ''needs_living_room''),
     (''needsWifi'', ''needs_wifi''),
     (''professionEn'', ''profession_en''),
     (''professionEs'', ''profession_es''),
     (''rentalType'', ''rental_type''),
     (''roomistaPhotoURL'', ''roomista_photo_url''),
     (''searchAddress'', ''search_address''),
     (''searchBudget'', ''search_budget''),
     (''searchLocation'', ''search_location''),
     (''searchRadius'', ''search_radius''),
     (''strengthsRoommateEn'', ''strengths_roommate_en''),
     (''strengthsRoommateEs'', ''strengths_roommate_es'')]"

section \<open>\<^verbatim>\<open>migrate_name_fields_i18n.py\<close>: language fields\<close>

text \<open>
  \<^verbatim>\<open>
    if 'sourceLanguage' not in data:
        update_data['source_language'] = 'en'
    for old_name, new_name in fields_to_rename.items(): ...   (the rename loop above)
    for field in fields_to_delete:
        if field in data:
            update_data[field] = firestore.DELETE_FIELD
  \<close>
  \<^verbatim>\<open>migrate_listings\<close> and \<^verbatim>\<open>migrate_users\<close> of this script differ in their two tables only.
  Both names are also functions of \<^verbatim>\<open>migrate_data_schema.py\<close>, so they carry the script
  as a prefix here.
\<close>

definition add_source_language :: "doc_data \<Rightarrow> payload \<Rightarrow> payload" where
  "add_source_language data update_data =
     (if data ''sourceLanguage'' = None
      then AList.update ''source_language'' (SetTo (VStr ''en'')) update_data
      else update_data)"

fun delete_fields :: "string list \<Rightarrow> doc_data \<Rightarrow> payload \<Rightarrow> payload" where
  "delete_fields [] data update_data = update_data"
| "delete_fields (field # fields_to_delete) data update_data =
     delete_fields fields_to_delete data
       (if data field \<noteq> None then AList.update field DELETE_FIELD update_data else update_data)"

definition i18n_update :: "(string \<times> string) list \<Rightarrow> string list \<Rightarrow> doc_data \<Rightarrow> payload" where
  "i18n_update fields_to_rename fields_to_delete data =
     delete_fields fields_to_delete data
       (rename_fields fields_to_rename data (add_source_language data []))"

definition listings_fields_to_delete :: "string list" where
  "listings_fields_to_delete =
     [''description_es'', ''propertyStrengths_es'', ''tenantStrengthsSearched_es'', ''title_es'',
      ''sourceLanguage'']"

definition listings_fields_to_rename :: "(string \<times> string) list" where
  "listings_fields_to_rename =
    [(''availableUntil_unix'', ''available_until_unix''),
     (''availableUntilUnix'', ''available_until_unix''),
     (''availableUntil'', ''available_until''),
     (''availableFromUnix'', ''available_from_unix''),
     (''createdAtUnix'', ''created_at_unix''),
     (''createdAt'', ''created_at''),
     (''propertyStrengths'', ''property_strengths''),
     (''tenantStrengthsSearched'', ''tenant_strengths_searched''),
     (''updatedAtUnix'', ''updated_at_unix''),
     (''updatedAt'', ''updated_at'')]"

definition users_fields_to_delete :: "string list" where
  "users_fields_to_delete =
     [''bio_es'', ''flatmateTraitsEs'', ''gender_es'', ''profession_es'',
      ''propertyStrengthsSearched_es'', ''strengthsRoommate_es'', ''tenantStrengths_es'',
      ''sourceLanguage'']"

definition users_fields_to_rename :: "(string \<times> string) list" where
  "users_fields_to_rename =
    [(''availableUntil_unix'', ''available_until_unix''),
     (''availableUntil'', ''available_until''),
     (''availableFromUnix'', ''available_from_unix''),
     (''createdAtUnix'', ''created_at_unix''),
     (''createdAt'', ''created_at''),
     (''desiredMoveInDateUnix'', ''desired_move_in_date_unix''),
     (''desiredMoveInDate'', ''desired_move_in_date''),
     (''desiredMoveOutDateUnix'', ''desired_move_out_date_unix''),
     (''desiredMoveOutDate'', ''desired_move_out_date''),
     (''flatmateTraits'', ''flatmate_traits''),
     (''isStudent'', ''is_student''),
     (''languagesSpoken'', ''languages_spoken''),
     (''profileStatus'', ''profile_status''),
     (''propertyStrengths'', ''property_strengths''),
     (''propertyStrengthsSearched'', ''property_strengths_searched''),
     (''strengthsRoommate'', ''strengths_roommate''),
     (''tenantStrengths'', ''tenant_strengths''),
     (''updatedAtUnix'', ''updated_at_unix''),
     (''updatedAt'', ''updated_at'')]"

definition i18n_migrate_listings :: "(string \<times> doc_data) list \<Rightarrow> py_error option \<times> run_state" where
  "i18n_migrate_listings docs =
     run_migration (\<lambda>data. Inr (i18n_update listings_fields_to_rename listings_fields_to_delete data)) docs"

definition i18n_migrate_users :: "(string \<times> doc_data) list \<Rightarrow> py_error option \<times> run_state" where
  "i18n_migrate_users docs =
     run_migration (\<lambda>data. Inr (i18n_update users_fields_to_rename users_fields_to_delete data)) docs"

section \<open>\<^verbatim>\<open>migrate_content_fields_i18n.py\<close>: translating field contents\<close>

text \<open>
  \<^verbatim>\<open>conversion_map.get(item, item)\<close> hashes \<^verbatim>\<open>item\<close>: a list or a dict (a nested map of the
  document) is not hashable and the call raises \<^verbatim>\<open>TypeError\<close>. The keys of every conversion
  map are strings, so any other hashable item is its own translation.
\<close>

fun hashable :: "val \<Rightarrow> bool" where
  "hashable (VList xs) = False"
| "hashable (VMap m) = False"
| "hashable v = True"

fun translate_item :: "(string \<times> string) list \<Rightarrow> val \<Rightarrow> val" where
  "translate_item conversion_map (VStr s) =
     (case map_of conversion_map s of Some t \<Rightarrow> VStr t | None \<Rightarrow> VStr s)"
| "translate_item conversion_map item = item"

text \<open>
  \<^verbatim>\<open>translated_item != item\<close> compares the item with itself or with the string found in the
  map. \<^verbatim>\<open>nan\<close> is hashable, is no key of a map, and is unequal to itself.
\<close>

definition py_ne :: "val \<Rightarrow> val \<Rightarrow> bool" where
  "py_ne a b = (if a = VNaN \<or> b = VNaN then True else a \<noteq> b)"

text \<open>
  \<^verbatim>\<open>
    new_list = []
    for item in current_value:
        translated_item = conversion_map.get(item, item)
        new_list.append(translated_item)
        if translated_item != item:
            made_a_change = True
  \<close>
\<close>

fun translate_list ::
  "(string \<times> string) list \<Rightarrow> val list \<Rightarrow> val list \<Rightarrow> bool \<Rightarrow> py_error + val list \<times> bool" where
  "translate_list conversion_map [] new_list made_a_change = Inr (new_list, made_a_change)"
| "translate_list conversion_map (item # items) new_list made_a_change =
     (if hashable item then
        (let translated_item = translate_item conversion_map item
         in translate_list conversion_map items (new_list @ [translated_item])
              (if py_ne translated_item item then True else made_a_change))
      else Inl TypeError)"

text \<open>
  The body of the loop over \<^verbatim>\<open>conversion_rules.items()\<close> (lines 177-202), for one rule.
  \<^verbatim>\<open>continue\<close> and falling through both leave \<^verbatim>\<open>update_payload\<close> as it is. For a string the
  test is \<^verbatim>\<open>if translated_value:\<close>, which a missing key (\<^verbatim>\<open>None\<close>) and an empty translation
  both fail. A value that is neither a list nor a string is left alone.
\<close>

definition translate_field ::
  "string \<Rightarrow> (string \<times> string) list \<Rightarrow> doc_data \<Rightarrow> payload \<Rightarrow> py_error + payload" where
  "translate_field field conversion_map doc_data update_payload =
     (case doc_data field of
        None \<Rightarrow> Inr update_payload
      | Some (VList current_value) \<Rightarrow>
          (case translate_list conversion_map current_value [] False of
             Inl e \<Rightarrow> Inl e
           | Inr (new_list, made_a_change) \<Rightarrow>
               Inr (if made_a_change
                    then AList.update field (SetTo (VList new_list)) update_payload
                    else update_payload))
      | Some (VStr current_value) \<Rightarrow>
          (case map_of conversion_map current_value of
             Some translated_value \<Rightarrow>
               Inr (if translated_value \<noteq> []
                    then AList.update field (SetTo (VStr translated_value)) update_payload
                    else update_payload)
           | None \<Rightarrow> Inr update_payload)
      | Some _ \<Rightarrow> Inr update_payload)"

text \<open>The loop itself, which an exception in one rule leaves at once.\<close>

fun translate_fields ::
  "(string \<times> (string \<times> string) list) list \<Rightarrow> doc_data \<Rightarrow> payload \<Rightarrow> py_error + payload" where
  "translate_fields [] doc_data update_payload = Inr update_payload"
| "translate_fields ((field, conversion_map) # conversion_rules) doc_data update_payload =
     (case translate_field field conversion_map doc_data update_payload of
        Inl e \<Rightarrow> Inl e
      | Inr update_payload' \<Rightarrow> translate_fields conversion_rules doc_data update_payload')"

definition migrate_collection_content ::
  "(string \<times> (string \<times> string) list) list \<Rightarrow> (string \<times> doc_data) list
     \<Rightarrow> py_error option \<times> run_state" where
  "migrate_collection_content conversion_rules docs =
     run_migration (\<lambda>doc_data. translate_fields conversion_rules doc_data []) docs"

text \<open>
  The conversion tables. A Python string is a sequence of code points; here it is its UTF-8
  bytes, which keeps equality and emptiness (\<open>0xC3 0xB3\<close> is o with acute accent, \<open>0xC3 0xB1\<close> n
  with tilde, \<open>0xC3 0xA9\<close> e with acute accent).
\<close>

definition users_conversion_rules :: "(string \<times> (string \<times> string) list) list" where
  "users_conversion_rules =
    [(''flatmate_traits'',
        [(''Independencia'', ''independence''),
         (''Respeto'', ''respect''),
         (''Confianza'', ''trustworthiness''),
         (''Limpieza'', ''cleanliness''),
         (''Sociabilidad'', ''sociability'')]),
     (''gender'',
        [(''Hombre'', ''male''),
         (''Mujer'', ''female''),
         (''Otro'', ''other'')]),
     (''profile_status'',
        [(''iniciado'', ''started''),
         (''documento_creado'', ''document_created''),
         (''completado'', ''completed''),
         (''fallido'', ''failed'')]),
     (''property_strengths_searched'',
        [(''Encanto/Estilo'', ''charm_style''),
         (''Insonorizaci'' @ [CHR 0xC3, CHR 0xB3] @ ''n'', ''sound_proofing''),
         (''Luminosidad'', ''brightness''),
         (''Vistas'', ''views''),
         (''Ambiente comunitario'', ''community_atmosphere''),
         (''Tama'' @ [CHR 0xC3, CHR 0xB1] @ ''o'', ''size'')]),
     (''rental_type'',
        [(''propiedadEntera'', ''entire_property''),
         (''habitacion'', ''room'')]),
     (''role'',
        [(''inquilino'', ''tenant''),
         (''casero'', ''landlord'')]),
     (''strengths_roommate'',
        [(''Flexibilidad y adaptaci'' @ [CHR 0xC3, CHR 0xB3] @ ''n'', ''flexibility_and_adaptation''),
         (''Comunicaci'' @ [CHR 0xC3, CHR 0xB3] @ ''n abierta'', ''open_communication''),
         (''Aporto buen ambiente'', ''i_bring_a_good_atmosphere''),
         (''Respetuoso con el espacio'', ''respectful_of_space''),
         (''Responsabilidad dom'' @ [CHR 0xC3, CHR 0xA9] @ ''stica'', ''domestic_responsibility''),
         (''Organizaci'' @ [CHR 0xC3, CHR 0xB3] @ ''n y limpieza'', ''organization_and_cleanliness'')]),
     (''tenant_strengths'',
        [(''Contractual Responsibility'', ''contractual_responsibility''),
         (''Respect for the Community'', ''community_respect''),
         (''Property care'', ''property_care''),
         (''Clear Communication'', ''clear_communication'')]),
     (''id_verification_status'',
        [(''Verified'', ''verified''),
         (''Pending'', ''pending''),
         (''Not_started'', ''not_started''),
         (''Failed'', ''failed'')])]"

definition listings_conversion_rules :: "(string \<times> (string \<times> string) list) list" where
  "listings_conversion_rules =
    [(''property_strengths'',
        [(''Charm/Style'', ''charm_style''),
         (''Soundproofing'', ''sound_proofing''),
         (''Brightness'', ''brightness''),
         (''Views'', ''views''),
         (''Community Atmosphere'', ''community_atmosphere''),
         (''Size'', ''size'')]),
     (''rental_type'',
        [(''entireProperty'', ''entire_property''),
         (''room'', ''room'')]),
     (''tenant_strengths_searched'',
        [(''Contractual Responsibility'', ''contractual_responsibility''),
         (''respect_for_the_community'', ''community_respect''),
         (''Property care'', ''property_care''),
         (''Clear Communication'', ''clear_communication'')])]"

definition CONTENT_CONVERSION_MAP :: "(string \<times> (string \<times> (string \<times> string) list) list) list" where
  "CONTENT_CONVERSION_MAP =
     [(''users'', users_conversion_rules), (''listings'', listings_conversion_rules)]"

section \<open>\<^verbatim>\<open>migrate_data_schema.py\<close>: Unix seconds and native timestamps\<close>

text \<open>
  The script computes with Python floats, IEEE 754 doubles: a double is a rational, and every
  operation returns the double nearest to the exact result, ties to the even significand.
  \<open>ulp x\<close> is the spacing of the doubles around \<open>x\<close>: \<open>2 powi (e - 52)\<close> where
  \<open>2 powi e \<le> \<bar>x\<bar> < 2 powi (e + 1)\<close>, and \<open>2 powi (- 1074)\<close> for the subnormal ones
  (\<open>floor_log2\<close> finds \<open>e\<close>). A result of \<open>2 powi 1024\<close> or more, which Python turns into
  \<^verbatim>\<open>OverflowError\<close> or an infinity, is kept as a number here: it is far outside the dates of
  \<open>fromtimestamp_utc\<close> below, which raises on all of them.
\<close>

definition round_half_even :: "rat \<Rightarrow> int" where
  "round_half_even x =
     (let f = \<lfloor>x\<rfloor>; d = x - of_int f
      in if d < 1 / 2 then f else if 1 / 2 < d then f + 1 else if even f then f else f + 1)"

definition floor_log2 :: "rat \<Rightarrow> int" where
  "floor_log2 x = (if 1 \<le> x then bitlen \<lfloor>x\<rfloor> - 1 else - bitlen (\<lceil>1 / x\<rceil> - 1))"

definition ulp :: "rat \<Rightarrow> rat" where
  "ulp x = 2 powi (max (floor_log2 \<bar>x\<bar>) (- 1022) - 52)"

definition nearest_double :: "rat \<Rightarrow> rat" where
  "nearest_double x = (if x = 0 then 0 else of_int (round_half_even (x / ulp x)) * ulp x)"

text \<open>\<^verbatim>\<open>int(x)\<close> of a float drops the fractional part.\<close>

definition int_of_float :: "rat \<Rightarrow> int" where
  "int_of_float x = (if 0 \<le> x then \<lfloor>x\<rfloor> else \<lceil>x\<rceil>)"

text \<open>
  \<^verbatim>\<open>datetime.timestamp()\<close> of a timestamp of the store (timezone-aware, UTC) is
  \<^verbatim>\<open>(self - epoch).total_seconds()\<close>, the microseconds divided by \<open>10\<^sup>6\<close> as a float.
\<close>

definition timestamp :: "int \<Rightarrow> rat" where
  "timestamp t = nearest_double (of_int t / 1000000)"

text \<open>
  \<^verbatim>\<open>
    for field in ['availableFrom', 'availableUntil']:
        if field in data and isinstance(data[field], datetime):
            update_data[f'{field}_unix'] = int(data[field].timestamp())
  \<close>
\<close>

fun unix_fields :: "string list \<Rightarrow> doc_data \<Rightarrow> payload \<Rightarrow> payload" where
  "unix_fields [] data update_data = update_data"
| "unix_fields (field # more_fields) data update_data =
     unix_fields more_fields data
       (case data field of
          Some (VTime t) \<Rightarrow>
            AList.update (field @ ''_unix'') (SetTo (VInt (int_of_float (timestamp t)))) update_data
        | _ \<Rightarrow> update_data)"

text \<open>
  \<^verbatim>\<open>isinstance(x, (int, float))\<close> holds for a boolean as well (\<^verbatim>\<open>bool\<close> is a subclass of
  \<^verbatim>\<open>int\<close>). \<open>number_of\<close> is the float that \<^verbatim>\<open>x / 1000.0\<close> divides: an \<^verbatim>\<open>int\<close> is converted to the
  nearest double first. \<open>non_finite\<close> are the floats that are no number.
\<close>

fun number_of :: "val \<Rightarrow> rat option" where
  "number_of (VBool b) = Some (if b then 1 else 0)"
| "number_of (VInt i) = Some (nearest_double (of_int i))"
| "number_of (VFloat q) = Some q"
| "number_of v = None"

fun non_finite :: "val \<Rightarrow> bool" where
  "non_finite VNaN = True"
| "non_finite (VInf positive) = True"
| "non_finite v = False"

text \<open>
  \<^verbatim>\<open>datetime.fromtimestamp(seconds, tz=timezone.utc)\<close> splits the float into its integral and
  fractional part (\<^verbatim>\<open>modf\<close>), multiplies the fractional part by \<^verbatim>\<open>1e6\<close> and rounds the product
  to the nearest microsecond, ties to the even one; a rounded part of \<open>10\<^sup>6\<close> or below \<open>0\<close>
  carries into the seconds, which leaves the total as it is. It raises (\<^verbatim>\<open>ValueError\<close>,
  \<^verbatim>\<open>OverflowError\<close>) when the date is not in the years 1 to 9999.
\<close>

definition fromtimestamp_utc :: "rat \<Rightarrow> py_error + int" where
  "fromtimestamp_utc seconds =
     (let intpart = int_of_float seconds;
          floatpart = seconds - of_int intpart;
          us = round_half_even (nearest_double (floatpart * 1000000));
          total = intpart * 1000000 + us
      in if - 62135596800000000 \<le> total \<and> total \<le> 253402300799999999 then Inr total
         else Inl DateOutOfRange)"

text \<open>
  \<^verbatim>\<open>
    for field in ['createdAt', 'updatedAt']:
        if field in data and isinstance(data[field], (int, float)):
            seconds = data[field] / 1000.0
            update_data[field] = datetime.fromtimestamp(seconds, tz=timezone.utc)
  \<close>
  On \<^verbatim>\<open>nan\<close> and on an infinity the division returns its argument and \<^verbatim>\<open>fromtimestamp\<close>
  raises.
\<close>

fun timestamp_fields :: "string list \<Rightarrow> doc_data \<Rightarrow> payload \<Rightarrow> py_error + payload" where
  "timestamp_fields [] data update_data = Inr update_data"
| "timestamp_fields (field # more_fields) data update_data =
     (case data field of
        None \<Rightarrow> timestamp_fields more_fields data update_data
      | Some v \<Rightarrow>
          (if non_finite v then Inl DateOutOfRange
           else case number_of v of
             None \<Rightarrow> timestamp_fields more_fields data update_data
           | Some ms \<Rightarrow>
               (case fromtimestamp_utc (nearest_double (ms / 1000)) of
                  Inl e \<Rightarrow> Inl e
                | Inr t \<Rightarrow>
                    timestamp_fields more_fields data (AList.update field (SetTo (VTime t)) update_data))))"

definition schema_listings_update :: "doc_data \<Rightarrow> py_error + payload" where
  "schema_listings_update data =
     timestamp_fields [''createdAt'', ''updatedAt''] data
       (unix_fields [''availableFrom'', ''availableUntil''] data [])"

definition schema_migrate_listings :: "(string \<times> doc_data) list \<Rightarrow> py_error option \<times> run_state" where
  "schema_migrate_listings docs = run_migration schema_listings_update docs"

text \<open>\<^verbatim>\<open>migrate_users\<close>: the \<^verbatim>\<open>_unix\<close> fields only when \<^verbatim>\<open>data.get('role') == 'inquilino'\<close>.\<close>

definition schema_users_update :: "doc_data \<Rightarrow> py_error + payload" where
  "schema_users_update data =
     timestamp_fields [''createdAt'', ''updatedAt''] data
       (if data ''role'' = Some (VStr ''inquilino'')
        then unix_fields [''desiredMoveInDate'', ''desiredMoveOutDate''] data []
        else [])"

definition schema_migrate_users :: "(string \<times> doc_data) list \<Rightarrow> py_error option \<times> run_state" where
  "schema_migrate_users docs = run_migration schema_users_update docs"

section \<open>Start-up of a script: configuration and credentials\<close>

text \<open>
  \<^verbatim>\<open>migrate_case_style.py\<close>, lines 59-64 and 185-209. What the script finds when it starts is
  an \<open>environment\<close>; what it does is an \<open>outcome\<close>: the lines printed (progress lines of
  the migration loop left out), the exit status and the accesses to the document store.

  \<^verbatim>\<open>sys.exit(1)\<close> raises \<^verbatim>\<open>SystemExit\<close>, which is not an \<^verbatim>\<open>Exception\<close>: raised inside the
  \<^verbatim>\<open>try\<close> block of \<^verbatim>\<open>main\<close> it passes the handler \<^verbatim>\<open>except Exception\<close>.

  The environment says whether \<^verbatim>\<open>from config import config\<close> succeeds, whether the module
  defines \<^verbatim>\<open>FIREBASE_SERVICE_ACCOUNT_KEY\<close>, whether the file it names exists, whether a
  Firebase app is already initialised, whether \<^verbatim>\<open>credentials.Certificate\<close> and
  \<^verbatim>\<open>initialize_app\<close> succeed, whether \<^verbatim>\<open>firestore.client()\<close> succeeds, and what the
  collections hold.
\<close>

record environment =
  config_importable :: bool
  key_defined :: bool
  key_file_exists :: bool
  app_initialized :: bool
  certificate_ok :: bool
  client_ok :: bool
  collections :: "string \<Rightarrow> (string \<times> doc_data) list"

datatype message =
    ConfigNotFound
  | ConfigSearchPath
  | CredentialsNotFound
  | CriticalError
  | Summary string summary
  | Finished

datatype store_access = Stream string | Commit "(string \<times> payload) list"

datatype raised = SystemExit nat | Exception

record outcome =
  printed :: "message list"
  exit_status :: nat
  accesses :: "store_access list"

text \<open>The \<^verbatim>\<open>try\<close> block of \<^verbatim>\<open>main\<close>: the lines it prints and what it raises, if anything.\<close>

definition init_firebase :: "environment \<Rightarrow> message list \<times> raised option" where
  "init_firebase env =
     (if \<not> key_defined env then ([], Some Exception)
      else if \<not> key_file_exists env then ([CredentialsNotFound], Some (SystemExit 1))
      else if \<not> app_initialized env \<and> \<not> certificate_ok env then ([], Some Exception)
      else if \<not> client_ok env then ([], Some Exception)
      else ([], None))"

text \<open>\<^verbatim>\<open>except Exception as e: print(...); sys.exit(1)\<close>\<close>

fun except_Exception :: "message list \<times> raised option \<Rightarrow> message list \<times> raised option" where
  "except_Exception (msgs, Some Exception) = (msgs @ [CriticalError], Some (SystemExit 1))"
| "except_Exception (msgs, r) = (msgs, r)"

definition is_error :: "message \<Rightarrow> bool" where
  "is_error m \<longleftrightarrow> m = ConfigNotFound \<or> m = CredentialsNotFound \<or> m = CriticalError"

definition run_collection ::
  "environment \<Rightarrow> string \<Rightarrow> (string \<times> string) list \<Rightarrow> message list \<times> store_access list" where
  "run_collection env collection_name field_map =
     (let s = snd (migrate_collection field_map (collections env collection_name))
      in ([Summary collection_name (report s)], Stream collection_name # map Commit (committed s)))"

definition main :: "environment \<Rightarrow> outcome" where
  "main env =
     (case except_Exception (init_firebase env) of
        (msgs, Some (SystemExit n)) \<Rightarrow> \<lparr>printed = msgs, exit_status = n, accesses = []\<rparr>
      | (msgs, Some Exception) \<Rightarrow> \<lparr>printed = msgs, exit_status = 1, accesses = []\<rparr>
      | (msgs, None) \<Rightarrow>
          (let l = run_collection env ''listings'' LISTINGS_FIELD_MAP;
               u = run_collection env ''users'' USERS_FIELD_MAP
           in \<lparr>printed = msgs @ fst l @ fst u @ [Finished], exit_status = 0,
               accesses = snd l @ snd u\<rparr>))"

text \<open>The script: the guarded import at module level, then \<^verbatim>\<open>main()\<close>.\<close>

definition script :: "environment \<Rightarrow> outcome" where
  "script env =
     (if \<not> config_importable env
      then \<lparr>printed = [ConfigNotFound, ConfigSearchPath], exit_status = 1, accesses = []\<rparr>
      else main env)"

section \<open>Auxiliary notions for the proofs\<close>

text \<open>
  The invariant of the loop at its head: the batch in flight holds as many updates as the
  counter has advanced since the last multiple of 499, and all batches committed inside
  the loop are full.
\<close>

definition loop_inv :: "run_state \<Rightarrow> bool" where
  "loop_inv s \<longleftrightarrow>
     length (batch s) = docs_processed s mod 499 \<and>
     map length (committed s) = replicate (docs_processed s div 499) 499"

text \<open>Sample collections: \<open>n\<close> listings with distinct ids, each with one camelCase field.\<close>

definition wifi_doc :: "nat \<Rightarrow> string \<times> doc_data" where
  "wifi_doc i = (replicate (Suc i) CHR ''d'', [''hasWifi'' \<mapsto> VBool True])"

definition sample_listings :: "nat \<Rightarrow> (string \<times> doc_data) list" where
  "sample_listings n = map wifi_doc [0..<n]"

text \<open>
  The state of the case-style run over 499 such listings at the head of the loop before the
  last one: the state the loop reaches over the first 498.
\<close>

definition before_last_listing :: run_state where
  "before_last_listing =
     snd (stream_loop (\<lambda>data. Inr (rename_fields LISTINGS_FIELD_MAP data []))
            (sample_listings 498) init_state)"

definition two_listings :: "(string \<times> doc_data) list" where
  "two_listings = [(''l1'', [''hasWifi'' \<mapsto> VBool True]), (''l2'', [''title'' \<mapsto> VStr ''Loft''])]"

definition until_listing :: "(string \<times> doc_data) list" where
  "until_listing =
     [(''l3'', [''availableUntil_unix'' \<mapsto> VInt 1, ''availableUntilUnix'' \<mapsto> VInt 2])]"

text \<open>
  The frame of a run with respect to a set of field names: every update staged by the run
  (committed or still in flight when the run was cut short) addresses a document that was
  streamed and touches only fields of that set; the collection holds the same documents
  after the run; and every field outside the set has the value it had before.
\<close>

definition frame :: "string set \<Rightarrow> (string \<times> doc_data) list \<Rightarrow> py_error option \<times> run_state \<Rightarrow> bool" where
  "frame names docs r \<longleftrightarrow>
     (\<forall>w \<in> set (concat (committed (snd r)) @ batch (snd r)).
        fst w \<in> fst ` set docs \<and> fst ` set (snd w) \<subseteq> names) \<and>
     map fst (store_after (committed (snd r)) docs) = map fst docs \<and>
     (\<forall>i < length docs. \<forall>k. k \<notin> names \<longrightarrow>
        snd (store_after (committed (snd r)) docs ! i) k = snd (docs ! i) k)"

text \<open>A listing with a timestamp half a second past a whole second and a numeric audit field.\<close>

definition backfill_listing :: doc_data where
  "backfill_listing =
     [''availableFrom'' \<mapsto> VTime 1700000000500000, ''createdAt'' \<mapsto> VInt 1700000000000]"

text \<open>
  An environment in which the configuration is found but the credential file is not, and a
  listing that still has the old \<^verbatim>\<open>sourceLanguage\<close> field.
\<close>

definition no_key_file :: environment where
  "no_key_file =
     \<lparr>config_importable = True, key_defined = True, key_file_exists = False,
      app_initialized = False, certificate_ok = True, client_ok = True,
      collections = (\<lambda>collection_name. two_listings)\<rparr>"

definition language_listing :: "(string \<times> doc_data) list" where
  "language_listing = [(''l4'', [''sourceLanguage'' \<mapsto> VStr ''es''])]"

section \<open>The write loop: counter, batches and staged updates\<close>

lemma loop_inv_init: "loop_inv init_state"
  by (simp add: loop_inv_def init_state_def)

lemma mod_cap_full:
  fixes n c :: nat
  assumes "Suc n mod c = 0" and "0 < c"
  shows "n mod c = c - 1 \<and> Suc n div c = Suc (n div c)"
proof -
  from assms have "Suc (n mod c) = c"
    by (simp add: mod_Suc split: if_splits)
  then have "n mod c = c - 1" by simp
  moreover from assms have "Suc n div c = Suc (n div c)"
    by (simp add: div_Suc)
  ultimately show ?thesis by simp
qed

lemma mod_cap_room:
  fixes n c :: nat
  assumes "Suc n mod c \<noteq> 0"
  shows "Suc n mod c = Suc (n mod c) \<and> Suc n div c = n div c"
proof -
  from assms have "Suc n mod c = Suc (n mod c)"
    by (simp add: mod_Suc split: if_splits)
  moreover from assms have "Suc n div c = n div c"
    by (simp add: div_Suc)
  ultimately show ?thesis by simp
qed

lemma mod_499_step:
  fixes n :: nat
  shows "Suc n mod 499 = 0 \<Longrightarrow> n mod 499 = 498 \<and> Suc n div 499 = Suc (n div 499)"
    and "Suc n mod 499 \<noteq> 0 \<Longrightarrow> Suc n mod 499 = Suc (n mod 499) \<and> Suc n div 499 = n div 499"
  using mod_cap_full [of n 499] mod_cap_room [of n 499] by simp_all

lemma loop_inv_visit: "loop_inv s \<Longrightarrow> loop_inv (visit doc_id u s)"
proof (cases "u = []")
  case True
  then show "loop_inv s \<Longrightarrow> ?thesis" by (simp add: visit_def)
next
  case False
  assume inv: "loop_inv s"
  define n where "n = docs_processed s"
  show ?thesis
  proof (cases "Suc n mod 499 = 0")
    case True
    note m = mod_499_step(1) [OF True]
    have v: "visit doc_id u s = commit (stage_update doc_id u s)"
      using True False by (simp add: visit_def stage_update_def n_def Let_def)
    have "length (batch s) = 498" "map length (committed s) = replicate (n div 499) 499"
      using inv m by (simp_all add: loop_inv_def n_def)
    then have "map length (committed s @ [batch s @ [(doc_id, u)]]) = replicate (Suc n div 499) 499"
      using m by (simp add: replicate_append_same)
    then show ?thesis
      unfolding v loop_inv_def using True
      by (simp add: stage_update_def commit_def n_def)
  next
    case F: False
    note m = mod_499_step(2) [OF F]
    have v: "visit doc_id u s = stage_update doc_id u s"
      using F False by (simp add: visit_def stage_update_def n_def Let_def)
    show ?thesis
      unfolding v loop_inv_def using inv m
      by (simp add: stage_update_def n_def loop_inv_def)
  qed
qed

lemma visit_writes:
  "concat (committed (visit doc_id u s)) @ batch (visit doc_id u s) =
     concat (committed s) @ batch s @ (if u \<noteq> [] then [(doc_id, u)] else [])"
  by (simp add: visit_def stage_update_def commit_def Let_def)

lemma visit_count:
  "docs_processed (visit doc_id u s) = docs_processed s + (if u \<noteq> [] then 1 else 0)"
  by (simp add: visit_def stage_update_def commit_def Let_def)

lemma stream_loop_inv:
  "loop_inv s \<Longrightarrow> loop_inv (snd (stream_loop body docs s))"
proof (induction docs arbitrary: s)
  case Nil
  then show ?case by simp
next
  case (Cons d docs)
  obtain doc_id data where d: "d = (doc_id, data)" by (cases d)
  show ?case
  proof (cases "body data")
    case (Inl e)
    with Cons.prems d show ?thesis by simp
  next
    case (Inr u)
    from Cons.prems have "loop_inv (visit doc_id u s)" by (rule loop_inv_visit)
    then have "loop_inv (snd (stream_loop body docs (visit doc_id u s)))" by (rule Cons.IH)
    with d Inr show ?thesis by simp
  qed
qed

lemma stream_loop_writes:
  "concat (committed (snd (stream_loop body docs s))) @ batch (snd (stream_loop body docs s)) =
     concat (committed s) @ batch s @ staged_updates body docs"
proof (induction docs arbitrary: s)
  case Nil
  show ?case by simp
next
  case (Cons d docs)
  obtain doc_id data where d: "d = (doc_id, data)" by (cases d)
  show ?case
  proof (cases "body data")
    case (Inl e)
    with d show ?thesis by simp
  next
    case (Inr u)
    have "concat (committed (snd (stream_loop body docs (visit doc_id u s))))
            @ batch (snd (stream_loop body docs (visit doc_id u s))) =
          concat (committed (visit doc_id u s)) @ batch (visit doc_id u s) @ staged_updates body docs"
      by (rule Cons.IH)
    also have "\<dots> = concat (committed s) @ batch s @ staged_updates body (d # docs)"
      using visit_writes [of doc_id u s] d Inr by simp
    finally show ?thesis using d Inr by simp
  qed
qed

lemma stream_loop_count:
  "docs_processed (snd (stream_loop body docs s)) =
     docs_processed s + length (staged_updates body docs)"
proof (induction docs arbitrary: s)
  case Nil
  show ?case by simp
next
  case (Cons d docs)
  obtain doc_id data where d: "d = (doc_id, data)" by (cases d)
  show ?case
  proof (cases "body data")
    case (Inl e)
    with d show ?thesis by simp
  next
    case (Inr u)
    with d Cons.IH [of "visit doc_id u s"] show ?thesis
      by (simp add: visit_count)
  qed
qed


lemma stream_loop_total:
  "\<forall>d \<in> set docs. \<exists>u. body (snd d) = Inr u \<Longrightarrow> fst (stream_loop body docs s) = None"
proof (induction docs arbitrary: s)
  case Nil
  show ?case by simp
next
  case (Cons d docs)
  obtain doc_id data where d: "d = (doc_id, data)" by (cases d)
  from Cons.prems d obtain u where u: "body data = Inr u" by auto
  from Cons.prems have "\<forall>d \<in> set docs. \<exists>u. body (snd d) = Inr u" by simp
  then have "fst (stream_loop body docs (visit doc_id u s)) = None" by (rule Cons.IH)
  with d u show ?case by simp
qed

lemma staged_updates_total:
  "staged_updates (\<lambda>data. Inr (f data)) docs =
     filter (\<lambda>w. snd w \<noteq> []) (map (\<lambda>d. (fst d, f (snd d))) docs)"
  by (induction docs) auto

lemma run_migration_error:
  "fst (run_migration body docs) = fst (stream_loop body docs init_state)"
  by (simp add: run_migration_def final_commit_def split: prod.splits option.splits)

lemma loop_inv_full_batches:
  assumes "loop_inv s" and "b \<in> set (committed s)"
  shows "length b = 499"
proof -
  from assms(2) have "length b \<in> set (map length (committed s))" by simp
  also from assms(1) have "\<dots> = set (replicate (docs_processed s div 499) 499)"
    by (simp add: loop_inv_def)
  also have "\<dots> \<subseteq> {499}" by (simp add: set_replicate_conv_if)
  finally show ?thesis by simp
qed

lemma loop_inv_room:
  assumes "loop_inv s"
  shows "length (batch s) < 499"
proof -
  have "docs_processed s mod 499 < 499" by (rule mod_less_divisor) simp
  with assms show ?thesis by (simp add: loop_inv_def)
qed

lemma run_migration_result:
  assumes ok: "fst (run_migration body docs) = None"
  defines "u \<equiv> length (staged_updates body docs)"
  defines "s \<equiv> snd (run_migration body docs)"
  shows "batch s = []"
    and "concat (committed s) = staged_updates body docs"
    and "docs_processed s = u"
    and "map length (committed s) = replicate (u div 499) 499 @ (if 0 < u then [u mod 499] else [])"
proof -
  define r where "r = snd (stream_loop body docs init_state)"
  from ok have none: "stream_loop body docs init_state = (None, r)"
    by (simp add: run_migration_error r_def prod_eq_iff)
  have inv: "loop_inv r"
    unfolding r_def by (rule stream_loop_inv) (rule loop_inv_init)
  have cnt: "docs_processed r = u"
    unfolding r_def u_def by (simp add: stream_loop_count init_state_def)
  have wr: "concat (committed r) @ batch r = staged_updates body docs"
    unfolding r_def using stream_loop_writes [of body docs init_state]
    by (simp add: init_state_def)
  have s: "s = (if 0 < u then commit r else r)"
    unfolding s_def by (simp add: run_migration_def final_commit_def none cnt)
  have zero: "u = 0 \<Longrightarrow> batch r = []"
    using inv cnt by (simp add: loop_inv_def)
  show "batch s = []" using zero by (simp add: s commit_def)
  show "concat (committed s) = staged_updates body docs"
    using wr zero by (auto simp: s commit_def)
  show "docs_processed s = u" using cnt by (simp add: s commit_def)
  show "map length (committed s) = replicate (u div 499) 499 @ (if 0 < u then [u mod 499] else [])"
    using inv cnt by (simp add: s commit_def loop_inv_def)
qed

section \<open>Batch size and number of commits\<close>

lemma loop_head_inv:
  "loop_inv s0 \<Longrightarrow> LoopHead s \<in> set (loop_points body docs s0) \<Longrightarrow> loop_inv s"
proof (induction docs arbitrary: s0)
  case Nil
  then show ?case by simp
next
  case (Cons d docs)
  obtain doc_id data where d: "d = (doc_id, data)" by (cases d)
  show ?case
  proof (cases "body data")
    case (Inl e)
    with Cons.prems d show ?thesis by simp
  next
    case (Inr u)
    from Cons.prems(1) have v: "loop_inv (visit doc_id u s0)" by (rule loop_inv_visit)
    from Cons.prems(2) d Inr
    consider "s = s0" | "LoopHead s \<in> set (loop_points body docs (visit doc_id u s0))"
      by (auto split: if_splits)
    then show ?thesis
    proof cases
      case 1
      with Cons.prems(1) show ?thesis by simp
    next
      case 2
      with v show ?thesis by (rule Cons.IH)
    qed
  qed
qed

lemma staged_point_inv:
  "loop_inv s0 \<Longrightarrow> Staged s \<in> set (loop_points body docs s0) \<Longrightarrow>
     \<exists>s1 doc_id u. loop_inv s1 \<and> s = stage_update doc_id u s1"
proof (induction docs arbitrary: s0)
  case Nil
  then show ?case by simp
next
  case (Cons d docs)
  obtain doc_id data where d: "d = (doc_id, data)" by (cases d)
  show ?case
  proof (cases "body data")
    case (Inl e)
    with Cons.prems d show ?thesis by simp
  next
    case (Inr u)
    from Cons.prems(1) have v: "loop_inv (visit doc_id u s0)" by (rule loop_inv_visit)
    from Cons.prems(2) d Inr
    consider "s = stage_update doc_id u s0" | "Staged s \<in> set (loop_points body docs (visit doc_id u s0))"
      by (auto split: if_splits)
    then show ?thesis
    proof cases
      case 1
      with Cons.prems(1) show ?thesis by blast
    next
      case 2
      with v show ?thesis by (rule Cons.IH)
    qed
  qed
qed

lemma no_returned_in_loop: "Returned s \<notin> set (loop_points body docs s0)"
  by (induction docs arbitrary: s0) (auto split: sum.splits)

lemma loop_inv_staged_cap:
  assumes "loop_inv s"
  shows "length (batch (stage_update doc_id u s)) \<le> 499"
    and "\<forall>b \<in> set (committed (stage_update doc_id u s)). length b \<le> 499"
proof -
  from loop_inv_room [OF assms] show "length (batch (stage_update doc_id u s)) \<le> 499"
    by (simp add: stage_update_def)
  from loop_inv_full_batches [OF assms]
  show "\<forall>b \<in> set (committed (stage_update doc_id u s)). length b \<le> 499"
    by (auto simp: stage_update_def)
qed

lemma loop_inv_cap:
  assumes "loop_inv s"
  shows "length (batch s) \<le> 499" and "\<forall>b \<in> set (committed s). length b \<le> 499"
  using loop_inv_room [OF assms] loop_inv_full_batches [OF assms] by auto

lemma returned_cap:
  "length (batch (snd (run_migration body docs))) \<le> 499 \<and>
   (\<forall>b \<in> set (committed (snd (run_migration body docs))). length b \<le> 499)"
proof -
  define r where "r = snd (stream_loop body docs init_state)"
  have inv: "loop_inv r"
    unfolding r_def by (rule stream_loop_inv) (rule loop_inv_init)
  note c = loop_inv_cap [OF inv]
  have "snd (run_migration body docs) = r \<or> snd (run_migration body docs) = commit r"
    by (auto simp: run_migration_def final_commit_def r_def split: prod.splits option.splits)
  then show ?thesis
    using c by (auto simp: commit_def)
qed

lemma visit_at_cap:
  assumes inv: "loop_inv s" and u: "u \<noteq> []"
  shows "if length (batch (stage_update doc_id u s)) = 499
         then visit doc_id u s = commit (stage_update doc_id u s) \<and>
              batch (visit doc_id u s) = [] \<and>
              committed (visit doc_id u s) = committed s @ [batch (stage_update doc_id u s)]
         else visit doc_id u s = stage_update doc_id u s \<and>
              length (batch (stage_update doc_id u s)) < 499"
proof -
  let ?n = "docs_processed s"
  let ?s' = "stage_update doc_id u s"
  have len: "length (batch ?s') = Suc (?n mod 499)"
    using inv by (simp add: stage_update_def loop_inv_def)
  have cnt: "docs_processed ?s' = Suc ?n" by (simp add: stage_update_def)
  show ?thesis
  proof (cases "Suc ?n mod 499 = 0")
    case True
    from mod_499_step(1) [OF True] have "?n mod 499 = 498" ..
    then have full: "length (batch ?s') = 499" using len by simp
    have v: "visit doc_id u s = commit ?s'"
      using u True cnt by (simp add: visit_def Let_def)
    have "committed (commit ?s') = committed s @ [batch ?s']" "batch (commit ?s') = []"
      by (simp_all add: commit_def stage_update_def)
    with full v show ?thesis by simp
  next
    case False
    from mod_499_step(2) [OF False] have "Suc ?n mod 499 = Suc (?n mod 499)" ..
    moreover have "Suc ?n mod 499 < 499" by (rule mod_less_divisor) simp
    ultimately have lt: "length (batch ?s') < 499" using len by simp
    have v: "visit doc_id u s = ?s'"
      using u False cnt by (simp add: visit_def Let_def)
    from lt v show ?thesis by simp
  qed
qed

text \<open>
  C8. At every point of a run the batch in flight holds at most 499 staged updates, and so
  does every batch committed so far. At the head of the loop, staging one more update
  either brings the batch to 499, and then it is committed as one unit and replaced by an
  empty batch, or leaves it below 499, and then nothing is committed.
\<close>

theorem batch_size_invariant:
  assumes "p \<in> set (run_points body docs)"
  shows "length (batch (state_of p)) \<le> 499 \<and>
         (\<forall>b \<in> set (committed (state_of p)). length b \<le> 499) \<and>
         (\<forall>s doc_id u. p = LoopHead s \<and> u \<noteq> [] \<longrightarrow>
            (if length (batch (stage_update doc_id u s)) = 499
             then visit doc_id u s = commit (stage_update doc_id u s) \<and>
                  batch (visit doc_id u s) = [] \<and>
                  committed (visit doc_id u s) = committed s @ [batch (stage_update doc_id u s)]
             else visit doc_id u s = stage_update doc_id u s \<and>
                  length (batch (stage_update doc_id u s)) < 499))"
proof (cases p)
  case (LoopHead s)
  with assms have "LoopHead s \<in> set (loop_points body docs init_state)"
    by (simp add: run_points_def)
  with loop_inv_init have inv: "loop_inv s" by (rule loop_head_inv)
  have "\<forall>s' doc_id u. p = LoopHead s' \<and> u \<noteq> [] \<longrightarrow>
            (if length (batch (stage_update doc_id u s')) = 499
             then visit doc_id u s' = commit (stage_update doc_id u s') \<and>
                  batch (visit doc_id u s') = [] \<and>
                  committed (visit doc_id u s') = committed s' @ [batch (stage_update doc_id u s')]
             else visit doc_id u s' = stage_update doc_id u s' \<and>
                  length (batch (stage_update doc_id u s')) < 499)"
  proof (intro allI impI)
    fix s' doc_id and u :: payload
    assume a: "p = LoopHead s' \<and> u \<noteq> []"
    with LoopHead have e: "s' = s" and u: "u \<noteq> []" by simp_all
    show "if length (batch (stage_update doc_id u s')) = 499
             then visit doc_id u s' = commit (stage_update doc_id u s') \<and>
                  batch (visit doc_id u s') = [] \<and>
                  committed (visit doc_id u s') = committed s' @ [batch (stage_update doc_id u s')]
             else visit doc_id u s' = stage_update doc_id u s' \<and>
                  length (batch (stage_update doc_id u s')) < 499"
      unfolding e by (rule visit_at_cap [OF inv u])
  qed
  moreover from loop_inv_cap [OF inv] LoopHead
  have "length (batch (state_of p)) \<le> 499" "\<forall>b \<in> set (committed (state_of p)). length b \<le> 499"
    by simp_all
  ultimately show ?thesis by blast
next
  case (Staged s)
  with assms have "Staged s \<in> set (loop_points body docs init_state)"
    by (simp add: run_points_def)
  with loop_inv_init obtain s1 doc_id u where "loop_inv s1" "s = stage_update doc_id u s1"
    using staged_point_inv by blast
  with loop_inv_staged_cap [of s1 doc_id u] Staged show ?thesis by simp
next
  case (Returned s)
  with assms have "s = snd (run_migration body docs)"
    by (simp add: run_points_def no_returned_in_loop)
  with returned_cap [of body docs] Returned show ?thesis by simp
qed


lemma rename_wifi:
  "rename_fields LISTINGS_FIELD_MAP [''hasWifi'' \<mapsto> VBool True] [] =
     [(''has_wifi'', SetTo (VBool True)), (''hasWifi'', DELETE_FIELD)]"
  by (simp add: LISTINGS_FIELD_MAP_def)

lemma sample_listings_staged:
  "length (staged_updates (\<lambda>data. Inr (rename_fields LISTINGS_FIELD_MAP data [])) (sample_listings n)) = n"
proof -
  have "filter (\<lambda>w. snd w \<noteq> [])
          (map (\<lambda>d. (fst d, rename_fields LISTINGS_FIELD_MAP (snd d) [])) (sample_listings n)) =
        map (\<lambda>d. (fst d, rename_fields LISTINGS_FIELD_MAP (snd d) [])) (sample_listings n)"
    by (rule filter_True) (auto simp: sample_listings_def wifi_doc_def rename_wifi)
  then show ?thesis
    by (simp add: staged_updates_total sample_listings_def)
qed

lemma migrate_collection_total: "fst (migrate_collection field_map docs) = None"
  unfolding migrate_collection_def run_migration_error
  by (rule stream_loop_total) simp

lemma loop_head_after_prefix:
  "fst (stream_loop body (take k docs) s0) = None \<Longrightarrow>
     LoopHead (snd (stream_loop body (take k docs) s0)) \<in> set (loop_points body docs s0)"
proof (induction docs arbitrary: s0 k)
  case Nil
  then show ?case by simp
next
  case (Cons d docs)
  obtain doc_id data where d: "d = (doc_id, data)" by (cases d)
  show ?case
  proof (cases k)
    case 0
    then show ?thesis by (simp add: d)
  next
    case (Suc j)
    show ?thesis
    proof (cases "body data")
      case (Inl e)
      with Cons.prems Suc d show ?thesis by simp
    next
      case (Inr u)
      with Cons.prems Suc d
      have "fst (stream_loop body (take j docs) (visit doc_id u s0)) = None" by simp
      from Cons.IH [OF this] Inr Suc d show ?thesis by simp
    qed
  qed
qed

lemma take_sample_listings: "k \<le> n \<Longrightarrow> take k (sample_listings n) = sample_listings k"
  by (simp add: sample_listings_def take_map)

lemma before_last_listing_state:
  shows "docs_processed before_last_listing = 498"
    and "length (batch before_last_listing) = 498"
    and "committed before_last_listing = []"
    and "LoopHead before_last_listing
           \<in> set (run_points (\<lambda>data. Inr (rename_fields LISTINGS_FIELD_MAP data []))
                    (sample_listings 499))"
proof -
  let ?body = "\<lambda>data. Inr (rename_fields LISTINGS_FIELD_MAP data []) :: py_error + payload"
  show cnt: "docs_processed before_last_listing = 498"
    unfolding before_last_listing_def stream_loop_count
    by (simp add: sample_listings_staged init_state_def)
  have inv: "loop_inv before_last_listing"
    unfolding before_last_listing_def by (rule stream_loop_inv) (rule loop_inv_init)
  from inv cnt show "length (batch before_last_listing) = 498"
    by (simp add: loop_inv_def)
  from inv cnt have "map length (committed before_last_listing) = []"
    by (simp add: loop_inv_def)
  then show "committed before_last_listing = []" by simp
  have t: "take 498 (sample_listings 499) = sample_listings 498"
    by (rule take_sample_listings) simp
  have "fst (stream_loop ?body (take 498 (sample_listings 499)) init_state) = None"
    by (rule stream_loop_total) simp
  then have "LoopHead (snd (stream_loop ?body (take 498 (sample_listings 499)) init_state))
               \<in> set (loop_points ?body (sample_listings 499) init_state)"
    by (rule loop_head_after_prefix)
  then show "LoopHead before_last_listing \<in> set (run_points ?body (sample_listings 499))"
    by (simp only: t before_last_listing_def run_points_def set_append Un_iff simp_thms)
qed

text \<open>
  The run of \<^verbatim>\<open>migrate_case_style.py\<close> over 499 listings that all need an update, at the head
  of the loop before the last listing: 498 updates are in the batch, staging the last one
  brings it to 499, and the visit commits these 499 as one batch and goes on with an empty
  one.
\<close>

theorem batch_size_invariant_witness:
  "LoopHead before_last_listing
     \<in> set (run_points (\<lambda>data. Inr (rename_fields LISTINGS_FIELD_MAP data [])) (sample_listings 499)) \<and>
   length (batch before_last_listing) = 498 \<and>
   length (batch (stage_update (fst (wifi_doc 498))
                    [(''has_wifi'', SetTo (VBool True)), (''hasWifi'', DELETE_FIELD)]
                    before_last_listing)) = 499 \<and>
   visit (fst (wifi_doc 498)) [(''has_wifi'', SetTo (VBool True)), (''hasWifi'', DELETE_FIELD)]
       before_last_listing =
     commit (stage_update (fst (wifi_doc 498))
               [(''has_wifi'', SetTo (VBool True)), (''hasWifi'', DELETE_FIELD)] before_last_listing) \<and>
   batch (visit (fst (wifi_doc 498)) [(''has_wifi'', SetTo (VBool True)), (''hasWifi'', DELETE_FIELD)]
            before_last_listing) = [] \<and>
   map length (committed (visit (fst (wifi_doc 498))
                 [(''has_wifi'', SetTo (VBool True)), (''hasWifi'', DELETE_FIELD)]
                 before_last_listing)) = [499]"
proof -
  let ?u = "[(''has_wifi'', SetTo (VBool True)), (''hasWifi'', DELETE_FIELD)]"
  let ?id = "fst (wifi_doc 498)"
  let ?s' = "stage_update ?id ?u before_last_listing"
  note st = before_last_listing_state
  have full: "length (batch ?s') = 499"
    by (simp add: stage_update_def st(2))
  have "LoopHead before_last_listing = LoopHead before_last_listing \<and> ?u \<noteq> []" by simp
  with batch_size_invariant [OF st(4), THEN conjunct2, THEN conjunct2, rule_format,
      of before_last_listing ?u ?id]
  have "if length (batch ?s') = 499
        then visit ?id ?u before_last_listing = commit ?s' \<and>
             batch (visit ?id ?u before_last_listing) = [] \<and>
             committed (visit ?id ?u before_last_listing) = committed before_last_listing @ [batch ?s']
        else visit ?id ?u before_last_listing = ?s' \<and> length (batch ?s') < 499" .
  then have all3: "visit ?id ?u before_last_listing = commit ?s' \<and>
             batch (visit ?id ?u before_last_listing) = [] \<and>
             committed (visit ?id ?u before_last_listing) = committed before_last_listing @ [batch ?s']"
    unfolding if_P [OF full] .
  note v = all3 [THEN conjunct1]
    and b = all3 [THEN conjunct2, THEN conjunct1]
    and c = all3 [THEN conjunct2, THEN conjunct2]
  from c full have m: "map length (committed (visit ?id ?u before_last_listing)) = [499]"
    by (simp only: st(3) append_Nil list.map)
  from st(4) st(2) full v b m show ?thesis by (intro conjI)
qed

text \<open>
  The commits of a run that completes, as the code has them. A run that stages \<open>u\<close> updates
  reports \<open>u\<close>; it commits \<open>u div 499\<close> full batches of 499 inside the loop and, whenever
  \<open>u > 0\<close>, one last batch with the remaining \<open>u mod 499\<close> updates: \<open>u div 499 + 1\<close> commits
  for \<open>u > 0\<close>, none for \<open>u = 0\<close>.
\<close>

lemma commit_count:
  assumes "fst (run_migration body docs) = None"
  shows "let u = length (staged_updates body docs); s = snd (run_migration body docs) in
           docs_processed s = u \<and>
           report s = (if 0 < u then Completed u else NoUpdatesNeeded) \<and>
           length (committed s) = u div 499 + (if 0 < u then 1 else 0) \<and>
           map length (committed s) = replicate (u div 499) 499 @ (if 0 < u then [u mod 499] else [])"
proof -
  define u where "u = length (staged_updates body docs)"
  define s where "s = snd (run_migration body docs)"
  note r = run_migration_result [OF assms]
  have cnt: "docs_processed s = u" unfolding s_def u_def by (rule r(3))
  have sizes: "map length (committed s) = replicate (u div 499) 499 @ (if 0 < u then [u mod 499] else [])"
    unfolding s_def u_def by (rule r(4))
  have "length (map length (committed s)) = u div 499 + (if 0 < u then 1 else 0)"
    unfolding sizes by simp
  then have len: "length (committed s) = u div 499 + (if 0 < u then 1 else 0)" by simp
  have rep: "report s = (if 0 < u then Completed u else NoUpdatesNeeded)"
    by (simp add: report_def cnt)
  from cnt rep len sizes show ?thesis
    unfolding Let_def u_def [symmetric] s_def [symmetric] by blast
qed

text \<open>1000 listings that all need an update: three commits, of 499, 499 and 2 updates.\<close>

lemma commit_count_1000:
  "fst (migrate_collection LISTINGS_FIELD_MAP (sample_listings 1000)) = None \<and>
   docs_processed (snd (migrate_collection LISTINGS_FIELD_MAP (sample_listings 1000))) = 1000 \<and>
   report (snd (migrate_collection LISTINGS_FIELD_MAP (sample_listings 1000))) = Completed 1000 \<and>
   length (committed (snd (migrate_collection LISTINGS_FIELD_MAP (sample_listings 1000)))) = 3 \<and>
   map length (committed (snd (migrate_collection LISTINGS_FIELD_MAP (sample_listings 1000))))
     = [499, 499, 2]"
proof -
  have h: "fst (run_migration (\<lambda>data. Inr (rename_fields LISTINGS_FIELD_MAP data [])) (sample_listings 1000)) = None"
    using migrate_collection_total [of LISTINGS_FIELD_MAP "sample_listings 1000"]
    by (simp add: migrate_collection_def)
  have d: "(1000::nat) div 499 = 2" "(1000::nat) mod 499 = 2" by simp_all
  have rp: "replicate 2 (499::nat) = [499, 499]" by (simp add: numeral_2_eq_2)
  from commit_count [OF h] h show ?thesis
    by (simp add: migrate_collection_def sample_listings_staged Let_def d rp)
qed

text \<open>No listing holds a field of the map: nothing is staged, nothing committed.\<close>

lemma commit_count_none:
  "migrate_collection LISTINGS_FIELD_MAP [(''l2'', [''title'' \<mapsto> VStr ''Loft''])]
     = (None, init_state) \<and>
   report init_state = NoUpdatesNeeded \<and> committed init_state = []"
  by (simp add: migrate_collection_def run_migration_def final_commit_def LISTINGS_FIELD_MAP_def
      visit_def init_state_def report_def)

text \<open>
  C2 fails when the number of staged updates is a positive multiple of 499. The loop
  commits the full batch at the 499th update and goes on with an empty one; the commit after
  the loop is guarded by \<^verbatim>\<open>docs_processed > 0\<close>, not by the batch, so it is issued all the
  same. For 499 listings that all need an update the run completes, reports 499 and has
  made two commits where \<open>\<lceil>499 / 499\<rceil> = 1\<close>: the 499 updates, and an empty batch.
\<close>

theorem final_commit_of_empty_batch:
  "fst (migrate_collection LISTINGS_FIELD_MAP (sample_listings 499)) = None \<and>
   docs_processed (snd (migrate_collection LISTINGS_FIELD_MAP (sample_listings 499))) = 499 \<and>
   report (snd (migrate_collection LISTINGS_FIELD_MAP (sample_listings 499))) = Completed 499 \<and>
   length (committed (snd (migrate_collection LISTINGS_FIELD_MAP (sample_listings 499))))
     \<noteq> nat \<lceil>499 / (499 :: real)\<rceil> \<and>
   map length (committed (snd (migrate_collection LISTINGS_FIELD_MAP (sample_listings 499))))
     = [499, 0]"
proof -
  have t: "fst (migrate_collection LISTINGS_FIELD_MAP (sample_listings 499)) = None"
    by (rule migrate_collection_total)
  then have h: "fst (run_migration (\<lambda>data. Inr (rename_fields LISTINGS_FIELD_MAP data [])) (sample_listings 499)) = None"
    by (simp add: migrate_collection_def)
  note r = run_migration_result [OF h]
  have sizes: "map length (committed (snd (migrate_collection LISTINGS_FIELD_MAP (sample_listings 499))))
     = [499, 0]"
    using r(4) by (simp add: migrate_collection_def sample_listings_staged)
  then have "length (map length (committed (snd (migrate_collection LISTINGS_FIELD_MAP (sample_listings 499))))) = 2"
    by simp
  then have len: "length (committed (snd (migrate_collection LISTINGS_FIELD_MAP (sample_listings 499)))) = 2"
    by simp
  have cnt: "docs_processed (snd (migrate_collection LISTINGS_FIELD_MAP (sample_listings 499))) = 499"
    using r(3) by (simp add: migrate_collection_def sample_listings_staged)
  then have rep: "report (snd (migrate_collection LISTINGS_FIELD_MAP (sample_listings 499))) = Completed 499"
    by (simp add: report_def)
  from t cnt rep sizes len show ?thesis by simp
qed

section \<open>Which documents are written\<close>

lemma stream_loop_total_conv:
  "fst (stream_loop body docs s) = None \<Longrightarrow> \<forall>d \<in> set docs. \<exists>u. body (snd d) = Inr u"
proof (induction docs arbitrary: s)
  case Nil
  show ?case by simp
next
  case (Cons d docs)
  obtain doc_id data where d: "d = (doc_id, data)" by (cases d)
  show ?case
  proof (cases "body data")
    case (Inl e)
    with Cons.prems d show ?thesis by simp
  next
    case (Inr u)
    with Cons.prems d have "fst (stream_loop body docs (visit doc_id u s)) = None" by simp
    then have "\<forall>d \<in> set docs. \<exists>u. body (snd d) = Inr u" by (rule Cons.IH)
    with d Inr show ?thesis by simp
  qed
qed

lemma staged_updates_ids: "fst ` set (staged_updates body docs) \<subseteq> fst ` set docs"
proof (induction docs)
  case Nil
  show ?case by simp
next
  case (Cons d docs)
  obtain doc_id data where d: "d = (doc_id, data)" by (cases d)
  from Cons.IH d show ?case
    by (cases "body data") auto
qed

lemma staged_updates_other:
  assumes "doc_id \<notin> fst ` set docs"
  shows "filter (\<lambda>w. fst w = doc_id) (staged_updates body docs) = []"
  using assms staged_updates_ids [of body docs] by (auto simp: filter_empty_conv)

lemma staged_updates_for_doc:
  assumes "distinct (map fst docs)" and "(doc_id, data) \<in> set docs"
    and "\<forall>d \<in> set docs. \<exists>u. body (snd d) = Inr u" and "body data = Inr P"
  shows "filter (\<lambda>w. fst w = doc_id) (staged_updates body docs) =
           (if P \<noteq> [] then [(doc_id, P)] else [])"
  using assms
proof (induction docs)
  case Nil
  then show ?case by simp
next
  case (Cons d docs)
  obtain i dat where d: "d = (i, dat)" by (cases d)
  from Cons.prems(3) d obtain u where u: "body dat = Inr u" by auto
  from Cons.prems(1) d have fresh: "i \<notin> fst ` set docs" and dist: "distinct (map fst docs)"
    by simp_all
  from Cons.prems(3) have tot: "\<forall>d \<in> set docs. \<exists>u. body (snd d) = Inr u" by simp
  show ?case
  proof (cases "i = doc_id")
    case True
    with fresh Cons.prems(2) d have "dat = data" by force
    with u Cons.prems(4) have "u = P" by simp
    moreover from True fresh have "filter (\<lambda>w. fst w = doc_id) (staged_updates body docs) = []"
      by (simp add: staged_updates_other)
    ultimately show ?thesis using d u True by simp
  next
    case False
    with Cons.prems(2) d have here: "(doc_id, data) \<in> set docs" by simp
    from Cons.IH [OF dist here tot Cons.prems(4)] d u False show ?thesis by simp
  qed
qed

lemma one_batch_holds_it:
  "filter Q (concat bs) = [x] \<Longrightarrow> length (filter (\<lambda>b. \<exists>w \<in> set b. Q w) bs) = 1"
proof (induction bs)
  case Nil
  then show ?case by simp
next
  case (Cons b bs)
  from Cons.prems have split: "filter Q b @ filter Q (concat bs) = [x]" by simp
  then consider "filter Q b = [x]" "filter Q (concat bs) = []"
    | "filter Q b = []" "filter Q (concat bs) = [x]"
    by (auto simp: append_eq_Cons_conv)
  then show ?case
  proof cases
    case 1
    from 1(1) have "x \<in> set (filter Q b)" by simp
    then have here: "\<exists>w \<in> set b. Q w" by auto
    from 1(2) have "filter (\<lambda>b. \<exists>w \<in> set b. Q w) bs = []"
      by (auto simp: filter_empty_conv)
    with here show ?thesis by simp
  next
    case 2
    from 2(1) have "\<not> (\<exists>w \<in> set b. Q w)" by (auto simp: filter_empty_conv)
    moreover from 2(2) have "length (filter (\<lambda>b. \<exists>w \<in> set b. Q w) bs) = 1" by (rule Cons.IH)
    ultimately show ?thesis by simp
  qed
qed

lemma no_batch_holds_it:
  "filter Q (concat bs) = [] \<Longrightarrow> filter (\<lambda>b. \<exists>w \<in> set b. Q w) bs = []"
  by (auto simp: filter_empty_conv)

lemma rename_fields_nonempty_acc:
  "update_data \<noteq> [] \<Longrightarrow> rename_fields field_map data update_data \<noteq> []"
  by (induction field_map data update_data rule: rename_fields.induct) (auto split: option.splits)

lemma rename_fields_empty_iff:
  "rename_fields field_map data [] = [] \<longleftrightarrow> (\<forall>p \<in> set field_map. data (fst p) = None)"
proof (induction field_map)
  case Nil
  show ?case by simp
next
  case (Cons p field_map)
  obtain old_name new_name where p: "p = (old_name, new_name)" by (cases p)
  show ?case
  proof (cases "data old_name")
    case None
    with Cons.IH p show ?thesis by simp
  next
    case (Some v)
    have "rename_fields field_map data
            (AList.update old_name DELETE_FIELD (AList.update new_name (SetTo v) [])) \<noteq> []"
      by (rule rename_fields_nonempty_acc) simp
    with Some p show ?thesis by simp
  qed
qed

lemma delete_fields_nonempty_acc:
  "update_data \<noteq> [] \<Longrightarrow> delete_fields fields_to_delete data update_data \<noteq> []"
  by (induction fields_to_delete arbitrary: update_data) auto

lemma delete_fields_present:
  "field \<in> set fields_to_delete \<Longrightarrow> data field \<noteq> None \<Longrightarrow>
     delete_fields fields_to_delete data update_data \<noteq> []"
proof (induction fields_to_delete arbitrary: update_data)
  case Nil
  then show ?case by simp
next
  case (Cons f fs)
  show ?case
  proof (cases "data f = None")
    case True
    with Cons show ?thesis by auto
  next
    case False
    then show ?thesis by (simp add: delete_fields_nonempty_acc)
  qed
qed

lemma i18n_update_nonempty:
  assumes "''sourceLanguage'' \<in> set fields_to_delete"
  shows "i18n_update fields_to_rename fields_to_delete data \<noteq> []"
proof (cases "data ''sourceLanguage'' = None")
  case True
  then have "add_source_language data [] \<noteq> []" by (simp add: add_source_language_def)
  then have "rename_fields fields_to_rename data (add_source_language data []) \<noteq> []"
    by (rule rename_fields_nonempty_acc)
  then show ?thesis unfolding i18n_update_def by (rule delete_fields_nonempty_acc)
next
  case False
  with assms show ?thesis unfolding i18n_update_def by (rule delete_fields_present)
qed

lemma rename_fields_other:
  "k \<notin> fst ` set field_map \<Longrightarrow> k \<notin> snd ` set field_map \<Longrightarrow>
     map_of (rename_fields field_map data update_data) k = map_of update_data k"
  by (induction field_map data update_data rule: rename_fields.induct)
     (auto simp: update_conv' split: option.splits)

lemma delete_fields_other:
  "k \<notin> set fields_to_delete \<Longrightarrow>
     map_of (delete_fields fields_to_delete data update_data) k = map_of update_data k"
  by (induction fields_to_delete arbitrary: update_data) (auto simp: update_conv')

lemma default_language_staged:
  assumes "data ''sourceLanguage'' = None"
    and "''source_language'' \<notin> fst ` set fields_to_rename"
    and "''source_language'' \<notin> snd ` set fields_to_rename"
    and "''source_language'' \<notin> set fields_to_delete"
  shows "map_of (i18n_update fields_to_rename fields_to_delete data) ''source_language''
           = Some (SetTo (VStr ''en''))"
  using assms
  by (simp add: i18n_update_def delete_fields_other rename_fields_other add_source_language_def)

text \<open>
  C3, as the code has it. In a run that completes over a collection with distinct document
  ids, a document receives exactly one committed update, in exactly one committed batch and
  carrying the payload built for it, when that payload is not empty, and no write at all
  when it is empty; no staged update is left uncommitted. In \<^verbatim>\<open>migrate_case_style.py\<close> the
  payload is not empty exactly when the document holds an old name of the field map. In
  \<^verbatim>\<open>migrate_name_fields_i18n.py\<close> a document that records no source language, under neither
  spelling of the field, is given \<^verbatim>\<open>source_language = 'en'\<close>, for listings and for users: its
  payload is not empty whatever its other fields are.
\<close>

theorem write_discipline:
  assumes "distinct (map fst docs)" and "(doc_id, data) \<in> set docs"
    and "fst (run_migration body docs) = None" and "body data = Inr update_data"
  shows "filter (\<lambda>w. fst w = doc_id) (concat (committed (snd (run_migration body docs)))) =
           (if update_data \<noteq> [] then [(doc_id, update_data)] else []) \<and>
         length (filter (\<lambda>b. \<exists>w \<in> set b. fst w = doc_id) (committed (snd (run_migration body docs)))) =
           (if update_data \<noteq> [] then 1 else 0) \<and>
         batch (snd (run_migration body docs)) = [] \<and>
         (rename_fields field_map data [] \<noteq> [] \<longleftrightarrow> (\<exists>p \<in> set field_map. data (fst p) \<noteq> None)) \<and>
         (data ''sourceLanguage'' = None \<and> data ''source_language'' = None \<longrightarrow>
            map_of (i18n_update listings_fields_to_rename listings_fields_to_delete data)
              ''source_language'' = Some (SetTo (VStr ''en'')) \<and>
            map_of (i18n_update users_fields_to_rename users_fields_to_delete data)
              ''source_language'' = Some (SetTo (VStr ''en'')))"
proof -
  let ?s = "snd (run_migration body docs)"
  note r = run_migration_result [OF assms(3)]
  from assms(3) have "\<forall>d \<in> set docs. \<exists>u. body (snd d) = Inr u"
    unfolding run_migration_error by (rule stream_loop_total_conv)
  with assms(1,2) have "filter (\<lambda>w. fst w = doc_id) (staged_updates body docs) =
           (if update_data \<noteq> [] then [(doc_id, update_data)] else [])"
    using assms(4) by (rule staged_updates_for_doc)
  then have one: "filter (\<lambda>w. fst w = doc_id) (concat (committed ?s)) =
           (if update_data \<noteq> [] then [(doc_id, update_data)] else [])"
    by (simp only: r(2))
  have cnt: "length (filter (\<lambda>b. \<exists>w \<in> set b. fst w = doc_id) (committed ?s)) =
           (if update_data \<noteq> [] then 1 else 0)"
  proof (cases "update_data = []")
    case True
    with one have "filter (\<lambda>w. fst w = doc_id) (concat (committed ?s)) = []" by simp
    then have "filter (\<lambda>b. \<exists>w \<in> set b. fst w = doc_id) (committed ?s) = []"
      by (rule no_batch_holds_it)
    with True show ?thesis by simp
  next
    case False
    with one have "filter (\<lambda>w. fst w = doc_id) (concat (committed ?s)) = [(doc_id, update_data)]"
      by simp
    then have "length (filter (\<lambda>b. \<exists>w \<in> set b. fst w = doc_id) (committed ?s)) = 1"
      by (rule one_batch_holds_it)
    with False show ?thesis by simp
  qed
  have ren: "rename_fields field_map data [] \<noteq> [] \<longleftrightarrow> (\<exists>p \<in> set field_map. data (fst p) \<noteq> None)"
    using rename_fields_empty_iff [of field_map data] by simp
  have l: "data ''sourceLanguage'' = None \<longrightarrow>
      map_of (i18n_update listings_fields_to_rename listings_fields_to_delete data)
        ''source_language'' = Some (SetTo (VStr ''en''))"
    by (rule impI, rule default_language_staged)
       (simp_all add: listings_fields_to_rename_def listings_fields_to_delete_def)
  have u: "data ''sourceLanguage'' = None \<longrightarrow>
      map_of (i18n_update users_fields_to_rename users_fields_to_delete data)
        ''source_language'' = Some (SetTo (VStr ''en''))"
    by (rule impI, rule default_language_staged)
       (simp_all add: users_fields_to_rename_def users_fields_to_delete_def)
  from one cnt r(1) ren l u show ?thesis by blast
qed


lemma rename_title:
  "rename_fields LISTINGS_FIELD_MAP [''title'' \<mapsto> VStr ''Loft''] [] = []"
  by (simp add: LISTINGS_FIELD_MAP_def)

text \<open>
  Two listings under the case-style map: the one with \<^verbatim>\<open>hasWifi\<close> receives one update, the
  one with only \<^verbatim>\<open>title\<close> receives none. Under \<^verbatim>\<open>migrate_name_fields_i18n.py\<close> the second one,
  which records no source language, is given the default.
\<close>

theorem write_discipline_witness:
  "distinct (map fst two_listings) \<and>
   (''l1'', [''hasWifi'' \<mapsto> VBool True]) \<in> set two_listings \<and>
   (''l2'', [''title'' \<mapsto> VStr ''Loft'']) \<in> set two_listings \<and>
   fst (migrate_collection LISTINGS_FIELD_MAP two_listings) = None \<and>
   filter (\<lambda>w. fst w = ''l1'')
     (concat (committed (snd (migrate_collection LISTINGS_FIELD_MAP two_listings)))) =
     [(''l1'', [(''has_wifi'', SetTo (VBool True)), (''hasWifi'', DELETE_FIELD)])] \<and>
   filter (\<lambda>w. fst w = ''l2'')
     (concat (committed (snd (migrate_collection LISTINGS_FIELD_MAP two_listings)))) = [] \<and>
   map_of (i18n_update listings_fields_to_rename listings_fields_to_delete [''title'' \<mapsto> VStr ''Loft''])
     ''source_language'' = Some (SetTo (VStr ''en''))"
proof -
  let ?body = "\<lambda>data. Inr (rename_fields LISTINGS_FIELD_MAP data []) :: py_error + payload"
  have d: "distinct (map fst two_listings)" by (simp add: two_listings_def)
  have m1: "(''l1'', [''hasWifi'' \<mapsto> VBool True]) \<in> set two_listings"
    and m2: "(''l2'', [''title'' \<mapsto> VStr ''Loft'']) \<in> set two_listings"
    by (simp_all add: two_listings_def)
  have t: "fst (run_migration ?body two_listings) = None"
    using migrate_collection_total [of LISTINGS_FIELD_MAP two_listings]
    by (simp add: migrate_collection_def)
  have b1: "?body [''hasWifi'' \<mapsto> VBool True] =
              Inr [(''has_wifi'', SetTo (VBool True)), (''hasWifi'', DELETE_FIELD)]"
    by (simp add: rename_wifi)
  have b2: "?body [''title'' \<mapsto> VStr ''Loft''] = Inr []"
    by (simp add: rename_title)
  note w2 = write_discipline [OF d m2 t b2]
  have "[''title'' \<mapsto> VStr ''Loft''] ''sourceLanguage'' = None \<and>
        [''title'' \<mapsto> VStr ''Loft''] ''source_language'' = None" by simp
  from mp [OF w2 [THEN conjunct2, THEN conjunct2, THEN conjunct2, THEN conjunct2] this]
  have src: "map_of (i18n_update listings_fields_to_rename listings_fields_to_delete
                       [''title'' \<mapsto> VStr ''Loft''])
               ''source_language'' = Some (SetTo (VStr ''en''))"
    by (rule conjunct1)
  from write_discipline [OF d m1 t b1] w2 d m1 m2 t
  have main: "distinct (map fst two_listings) \<and>
   (''l1'', [''hasWifi'' \<mapsto> VBool True]) \<in> set two_listings \<and>
   (''l2'', [''title'' \<mapsto> VStr ''Loft'']) \<in> set two_listings \<and>
   fst (migrate_collection LISTINGS_FIELD_MAP two_listings) = None \<and>
   filter (\<lambda>w. fst w = ''l1'')
     (concat (committed (snd (migrate_collection LISTINGS_FIELD_MAP two_listings)))) =
     [(''l1'', [(''has_wifi'', SetTo (VBool True)), (''hasWifi'', DELETE_FIELD)])] \<and>
   filter (\<lambda>w. fst w = ''l2'')
     (concat (committed (snd (migrate_collection LISTINGS_FIELD_MAP two_listings)))) = []"
    by (simp add: migrate_collection_def)
  from conjI [OF main src] show ?thesis by (simp only: conj_assoc)
qed

text \<open>
  A listing whose only field, \<^verbatim>\<open>title\<close>, is named in neither table of
  \<^verbatim>\<open>migrate_name_fields_i18n.py\<close> still receives a committed update.
\<close>

theorem write_discipline_counterexample:
  "''title'' \<notin> set (map fst listings_fields_to_rename) \<and>
   ''title'' \<notin> set listings_fields_to_delete \<and>
   committed (snd (i18n_migrate_listings [(''l2'', [''title'' \<mapsto> VStr ''Loft''])])) =
     [[(''l2'', [(''source_language'', SetTo (VStr ''en''))])]]"
  by (simp add: i18n_migrate_listings_def run_migration_def final_commit_def i18n_update_def
      add_source_language_def listings_fields_to_rename_def listings_fields_to_delete_def
      visit_def stage_update_def commit_def init_state_def Let_def)

section \<open>Renamed fields in the store\<close>

lemma apply_change_other: "fst c \<noteq> k \<Longrightarrow> apply_change c d k = d k"
proof -
  obtain k' u where c: "c = (k', u)" by (cases c)
  assume "fst c \<noteq> k"
  with c show ?thesis by (cases u) simp_all
qed

lemma apply_update_untouched:
  "k \<notin> fst ` set update_data \<Longrightarrow> apply_update update_data d k = d k"
  unfolding apply_update_def
  by (induction update_data arbitrary: d) (auto simp: apply_change_other)

lemma apply_update_lookup:
  "distinct (map fst update_data) \<Longrightarrow>
     apply_update update_data d k =
       (case map_of update_data k of
          None \<Rightarrow> d k
        | Some (SetTo v) \<Rightarrow> Some v
        | Some DELETE_FIELD \<Rightarrow> None)"
proof (induction update_data arbitrary: d)
  case Nil
  show ?case by (simp add: apply_update_def)
next
  case (Cons c cs)
  obtain k' u where c: "c = (k', u)" by (cases c)
  from Cons.prems c have fresh: "k' \<notin> fst ` set cs" and dist: "distinct (map fst cs)"
    by simp_all
  have step: "apply_update (c # cs) d = apply_update cs (apply_change c d)"
    by (simp add: apply_update_def)
  show ?case
  proof (cases "k' = k")
    case True
    with fresh have "apply_update cs (apply_change c d) k = apply_change c d k"
      by (simp add: apply_update_untouched)
    with True c step show ?thesis by (cases u) simp_all
  next
    case False
    with c have same: "apply_change c d k = d k" by (simp add: apply_change_other)
    from False c have "map_of (c # cs) k = map_of cs k" by simp
    with Cons.IH [OF dist, of "apply_change c d"] step same show ?thesis
      by (simp split: option.splits upd.splits)
  qed
qed

lemma rename_fields_distinct:
  "distinct (map fst update_data) \<Longrightarrow> distinct (map fst (rename_fields field_map data update_data))"
  by (induction field_map data update_data rule: rename_fields.induct)
     (auto split: option.splits simp: distinct_update)

lemma delete_fields_distinct:
  "distinct (map fst update_data) \<Longrightarrow> distinct (map fst (delete_fields fields_to_delete data update_data))"
  by (induction fields_to_delete arbitrary: update_data) (auto simp: distinct_update)

lemma add_source_language_distinct: "distinct (map fst (add_source_language data []))"
  by (simp add: add_source_language_def)

lemma i18n_update_distinct: "distinct (map fst (i18n_update fields_to_rename fields_to_delete data))"
  unfolding i18n_update_def
  by (intro delete_fields_distinct rename_fields_distinct add_source_language_distinct)

lemma rename_fields_new:
  assumes "(old_key, new_key) \<in> set field_map \<or> map_of update_data new_key = Some (SetTo v)"
    and "data old_key = Some v" and "data new_key = None"
    and "\<forall>p \<in> set field_map. snd p = new_key \<and> data (fst p) \<noteq> None \<longrightarrow> fst p = old_key"
  shows "map_of (rename_fields field_map data update_data) new_key = Some (SetTo v)"
  using assms(1,4)
proof (induction field_map arbitrary: update_data)
  case Nil
  then show ?case by simp
next
  case (Cons p field_map)
  obtain old_name new_name where p: "p = (old_name, new_name)" by (cases p)
  from Cons.prems(2)
  have rest: "\<forall>p \<in> set field_map. snd p = new_key \<and> data (fst p) \<noteq> None \<longrightarrow> fst p = old_key"
    by simp
  show ?case
  proof (cases "data old_name")
    case None
    with assms(2) have "old_name \<noteq> old_key" by auto
    with Cons.prems(1) p
    have "(old_key, new_key) \<in> set field_map \<or> map_of update_data new_key = Some (SetTo v)"
      by auto
    from Cons.IH [OF this rest] None p show ?thesis by simp
  next
    case (Some w)
    let ?acc = "AList.update old_name DELETE_FIELD (AList.update new_name (SetTo w) update_data)"
    from Some assms(3) have o: "old_name \<noteq> new_key" by auto
    have "(old_key, new_key) \<in> set field_map \<or> map_of ?acc new_key = Some (SetTo v)"
    proof (cases "new_name = new_key")
      case True
      with Cons.prems(2) p Some have "old_name = old_key" by auto
      with Some assms(2) have "w = v" by simp
      with True o show ?thesis by (simp add: update_conv')
    next
      case False
      with Cons.prems(1) p o show ?thesis by (auto simp: update_conv')
    qed
    from Cons.IH [OF this rest] Some p show ?thesis by simp
  qed
qed

lemma rename_fields_old:
  assumes "(old_key, new_key) \<in> set field_map \<or> map_of update_data old_key = Some DELETE_FIELD"
    and "data old_key \<noteq> None"
    and "\<forall>p \<in> set field_map. snd p = old_key \<longrightarrow> data (fst p) = None"
  shows "map_of (rename_fields field_map data update_data) old_key = Some DELETE_FIELD"
  using assms(1,3)
proof (induction field_map arbitrary: update_data)
  case Nil
  then show ?case by simp
next
  case (Cons p field_map)
  obtain old_name new_name where p: "p = (old_name, new_name)" by (cases p)
  from Cons.prems(2)
  have rest: "\<forall>p \<in> set field_map. snd p = old_key \<longrightarrow> data (fst p) = None"
    by simp
  show ?case
  proof (cases "data old_name")
    case None
    with assms(2) have "old_name \<noteq> old_key" by auto
    with Cons.prems(1) p
    have "(old_key, new_key) \<in> set field_map \<or> map_of update_data old_key = Some DELETE_FIELD"
      by auto
    from Cons.IH [OF this rest] None p show ?thesis by simp
  next
    case (Some w)
    let ?acc = "AList.update old_name DELETE_FIELD (AList.update new_name (SetTo w) update_data)"
    from Cons.prems(2) p Some have n: "new_name \<noteq> old_key" by auto
    have "(old_key, new_key) \<in> set field_map \<or> map_of ?acc old_key = Some DELETE_FIELD"
      using Cons.prems(1) p n by (auto simp: update_conv')
    from Cons.IH [OF this rest] Some p show ?thesis by simp
  qed
qed

lemma delete_fields_lookup:
  "map_of (delete_fields fields_to_delete data update_data) k =
     (if k \<in> set fields_to_delete \<and> data k \<noteq> None then Some DELETE_FIELD
      else map_of update_data k)"
  by (induction fields_to_delete arbitrary: update_data) (auto simp: update_conv')

lemma map_of_map_keyed:
  "distinct (map fst xs) \<Longrightarrow> (k, x) \<in> set xs \<Longrightarrow>
     map_of (map (\<lambda>(i, d). (i, F i d)) xs) k = Some (F k x)"
  by (induction xs) (auto simp: rev_image_eqI)

lemma store_after_doc:
  assumes "distinct (map fst docs)" and "(doc_id, data) \<in> set docs"
    and "fst (run_migration body docs) = None" and "body data = Inr update_data"
  shows "map_of (store_after (committed (snd (run_migration body docs))) docs) doc_id =
           Some (apply_update update_data data)"
proof -
  note r = run_migration_result [OF assms(3)]
  from assms(3) have "\<forall>d \<in> set docs. \<exists>u. body (snd d) = Inr u"
    unfolding run_migration_error by (rule stream_loop_total_conv)
  with assms(1,2) have f: "filter (\<lambda>w. fst w = doc_id) (staged_updates body docs) =
           (if update_data \<noteq> [] then [(doc_id, update_data)] else [])"
    using assms(4) by (rule staged_updates_for_doc)
  have "fold apply_update (map snd (filter (\<lambda>w. fst w = doc_id) (staged_updates body docs))) data
          = apply_update update_data data"
    unfolding f by (simp add: apply_update_def)
  then show ?thesis
    unfolding store_after_def r(2)
    using map_of_map_keyed [OF assms(1,2),
        of "\<lambda>i d. fold apply_update (map snd (filter (\<lambda>w. fst w = i) (staged_updates body docs))) d"]
    by simp
qed


lemma configured_maps_no_chain:
  "set (map fst LISTINGS_FIELD_MAP) \<inter> set (map snd LISTINGS_FIELD_MAP) = {}"
  "set (map fst USERS_FIELD_MAP) \<inter> set (map snd USERS_FIELD_MAP) = {}"
  "set (map fst listings_fields_to_rename) \<inter> set (map snd listings_fields_to_rename) = {}"
  "set (map fst users_fields_to_rename) \<inter> set (map snd users_fields_to_rename) = {}"
  by (simp_all add: LISTINGS_FIELD_MAP_def USERS_FIELD_MAP_def listings_fields_to_rename_def
      users_fields_to_rename_def)

lemma configured_targets_distinct:
  "distinct (map snd LISTINGS_FIELD_MAP)"
  "distinct (map snd USERS_FIELD_MAP)"
  "distinct (map snd users_fields_to_rename)"
  by (simp_all add: LISTINGS_FIELD_MAP_def USERS_FIELD_MAP_def users_fields_to_rename_def)


lemma renamed_payload:
  assumes pair: "(old_key, new_key) \<in> set field_map"
    and old: "data old_key = Some v" and new: "data new_key = None"
    and no_chain: "set (map fst field_map) \<inter> set (map snd field_map) = {}"
    and only: "\<forall>p \<in> set field_map. snd p = new_key \<and> data (fst p) \<noteq> None \<longrightarrow> fst p = old_key"
  shows "map_of (rename_fields field_map data update_data) new_key = Some (SetTo v)"
    and "map_of (rename_fields field_map data update_data) old_key = Some DELETE_FIELD"
proof -
  show "map_of (rename_fields field_map data update_data) new_key = Some (SetTo v)"
    by (rule rename_fields_new [OF disjI1 [OF pair] old new only])
  have disj: "fst ` set field_map \<inter> snd ` set field_map = {}"
    using no_chain by simp
  have mem: "old_key \<in> fst ` set field_map"
    using pair by (rule rev_image_eqI) simp
  have "\<forall>p \<in> set field_map. snd p = old_key \<longrightarrow> data (fst p) = None"
  proof (intro ballI impI)
    fix p
    assume "p \<in> set field_map" and "snd p = old_key"
    then have "old_key \<in> snd ` set field_map" by (metis imageI)
    with mem disj have False by blast
    then show "data (fst p) = None" ..
  qed
  moreover from old have "data old_key \<noteq> None" by simp
  ultimately
  show "map_of (rename_fields field_map data update_data) old_key = Some DELETE_FIELD"
    by (intro rename_fields_old [OF disjI1 [OF pair]])
qed

text \<open>
  C5, as the code has it. Take a field map in which no name is both an old and a new name
  (true of the four configured maps, \<open>configured_maps_no_chain\<close>), one of its pairs
  \<open>(old_key, new_key)\<close> and a document with \<open>old_key = v\<close> and without \<open>new_key\<close>, in a
  collection with distinct ids. If no other pair with the same \<open>new_key\<close> has its old name
  in the document, then after the run of \<^verbatim>\<open>migrate_case_style.py\<close>, and after the run of
  \<^verbatim>\<open>migrate_name_fields_i18n.py\<close> with any list of fields to delete, the document has
  \<open>new_key = v\<close> and no \<open>old_key\<close>. The proviso is empty for the maps whose new names are
  distinct (\<open>configured_targets_distinct\<close>); it is needed for \<^verbatim>\<open>fields_to_rename\<close> of the
  listings in \<^verbatim>\<open>migrate_name_fields_i18n.py\<close>, where two old names share a new one and the
  later pair wins.
\<close>

theorem rename_correct:
  assumes "distinct (map fst docs)" and "(doc_id, data) \<in> set docs"
    and "(old_key, new_key) \<in> set field_map"
    and "data old_key = Some v" and "data new_key = None"
    and "set (map fst field_map) \<inter> set (map snd field_map) = {}"
    and "\<forall>p \<in> set field_map. snd p = new_key \<and> data (fst p) \<noteq> None \<longrightarrow> fst p = old_key"
  shows "(\<exists>data'. map_of (store_after (committed (snd (migrate_collection field_map docs))) docs) doc_id
                    = Some data' \<and>
                  data' new_key = Some v \<and> data' old_key = None) \<and>
         (\<exists>data'. map_of (store_after
                      (committed (snd (run_migration
                         (\<lambda>data. Inr (i18n_update field_map fields_to_delete data)) docs))) docs) doc_id
                    = Some data' \<and>
                  data' new_key = Some v \<and> data' old_key = None)"
proof (rule conjI)
  let ?P = "rename_fields field_map data []"
  note p = renamed_payload [OF assms(3-7), of "[]"]
  have dist: "distinct (map fst ?P)" by (rule rename_fields_distinct) simp
  have t: "fst (run_migration (\<lambda>data. Inr (rename_fields field_map data [])) docs) = None"
    using migrate_collection_total [of field_map docs] by (simp add: migrate_collection_def)
  have "map_of (store_after (committed (snd (migrate_collection field_map docs))) docs) doc_id
          = Some (apply_update ?P data)"
    unfolding migrate_collection_def by (rule store_after_doc [OF assms(1,2) t]) simp
  moreover have "apply_update ?P data new_key = Some v" "apply_update ?P data old_key = None"
    using p by (simp_all add: apply_update_lookup [OF dist])
  ultimately show "\<exists>data'. map_of (store_after (committed (snd (migrate_collection field_map docs))) docs) doc_id
                    = Some data' \<and> data' new_key = Some v \<and> data' old_key = None"
    by blast
next
  let ?body = "\<lambda>data. Inr (i18n_update field_map fields_to_delete data) :: py_error + payload"
  let ?P = "i18n_update field_map fields_to_delete data"
  note p = renamed_payload [OF assms(3-7), of "add_source_language data []"]
  have dist: "distinct (map fst ?P)" by (rule i18n_update_distinct)
  have n: "map_of ?P new_key = Some (SetTo v)"
    using p(1) assms(5) by (simp add: i18n_update_def delete_fields_lookup)
  have o: "map_of ?P old_key = Some DELETE_FIELD"
    using p(2) by (simp add: i18n_update_def delete_fields_lookup)
  have t: "fst (run_migration ?body docs) = None"
    unfolding run_migration_error by (rule stream_loop_total) simp
  have "map_of (store_after (committed (snd (run_migration ?body docs))) docs) doc_id
          = Some (apply_update ?P data)"
    by (rule store_after_doc [OF assms(1,2) t]) simp
  moreover have "apply_update ?P data new_key = Some v" "apply_update ?P data old_key = None"
    using n o by (simp_all add: apply_update_lookup [OF dist])
  ultimately show "\<exists>data'. map_of (store_after (committed (snd (run_migration ?body docs))) docs) doc_id
                    = Some data' \<and> data' new_key = Some v \<and> data' old_key = None"
    by blast
qed

text \<open>The listing with \<^verbatim>\<open>hasWifi\<close> under the case-style map of the listings.\<close>

theorem rename_correct_witness:
  "distinct (map fst two_listings) \<and>
   (''l1'', [''hasWifi'' \<mapsto> VBool True]) \<in> set two_listings \<and>
   (''hasWifi'', ''has_wifi'') \<in> set LISTINGS_FIELD_MAP \<and>
   (\<exists>data'. map_of (store_after (committed (snd (migrate_collection LISTINGS_FIELD_MAP two_listings)))
                two_listings) ''l1'' = Some data' \<and>
            data' ''has_wifi'' = Some (VBool True) \<and> data' ''hasWifi'' = None)"
proof -
  have d: "distinct (map fst two_listings)" by (simp add: two_listings_def)
  have m: "(''l1'', [''hasWifi'' \<mapsto> VBool True]) \<in> set two_listings"
    by (simp add: two_listings_def)
  have pair: "(''hasWifi'', ''has_wifi'') \<in> set LISTINGS_FIELD_MAP"
    by (simp add: LISTINGS_FIELD_MAP_def)
  have old: "[''hasWifi'' \<mapsto> VBool True] ''hasWifi'' = Some (VBool True)"
    and new: "[''hasWifi'' \<mapsto> VBool True] ''has_wifi'' = None"
    by simp_all
  have only: "\<forall>p \<in> set LISTINGS_FIELD_MAP.
      snd p = ''has_wifi'' \<and> [''hasWifi'' \<mapsto> VBool True] (fst p) \<noteq> None \<longrightarrow> fst p = ''hasWifi''"
    by (simp add: LISTINGS_FIELD_MAP_def)
  have "\<exists>data'. map_of (store_after (committed (snd (migrate_collection LISTINGS_FIELD_MAP two_listings)))
                two_listings) ''l1'' = Some data' \<and>
            data' ''has_wifi'' = Some (VBool True) \<and> data' ''hasWifi'' = None"
    using rename_correct [OF d m pair old new configured_maps_no_chain(1) only]
    by (rule conjunct1)
  with d m pair show ?thesis by (intro conjI)
qed



lemma until_payload:
  "i18n_update listings_fields_to_rename listings_fields_to_delete
     [''availableUntil_unix'' \<mapsto> VInt 1, ''availableUntilUnix'' \<mapsto> VInt 2] =
   [(''source_language'', SetTo (VStr ''en'')),
    (''available_until_unix'', SetTo (VInt 2)),
    (''availableUntil_unix'', DELETE_FIELD),
    (''availableUntilUnix'', DELETE_FIELD)]"
  by (simp add: i18n_update_def add_source_language_def listings_fields_to_rename_def
      listings_fields_to_delete_def)

text \<open>
  A listing with \<^verbatim>\<open>availableUntil_unix = 1\<close> and \<^verbatim>\<open>availableUntilUnix = 2\<close> and no
  \<^verbatim>\<open>available_until_unix\<close>: after \<^verbatim>\<open>migrate_listings\<close> of \<^verbatim>\<open>migrate_name_fields_i18n.py\<close> the
  new field holds 2, not the value 1 of \<^verbatim>\<open>availableUntil_unix\<close>.
\<close>

theorem rename_correct_counterexample:
  "(''availableUntil_unix'', ''available_until_unix'') \<in> set listings_fields_to_rename \<and>
   map_of until_listing ''l3'' =
     Some [''availableUntil_unix'' \<mapsto> VInt 1, ''availableUntilUnix'' \<mapsto> VInt 2] \<and>
   map_option (\<lambda>data'. data' ''available_until_unix'')
     (map_of (store_after (committed (snd (i18n_migrate_listings until_listing))) until_listing) ''l3'')
     = Some (Some (VInt 2))"
proof -
  have c: "committed (snd (i18n_migrate_listings until_listing)) =
             [[(''l3'', [(''source_language'', SetTo (VStr ''en'')),
                        (''available_until_unix'', SetTo (VInt 2)),
                        (''availableUntil_unix'', DELETE_FIELD),
                        (''availableUntilUnix'', DELETE_FIELD)])]]"
    by (simp add: until_listing_def i18n_migrate_listings_def run_migration_def final_commit_def
        until_payload visit_def stage_update_def commit_def init_state_def Let_def)
  have "map_of (store_after (committed (snd (i18n_migrate_listings until_listing))) until_listing) ''l3''
          = Some (apply_update [(''source_language'', SetTo (VStr ''en'')),
                        (''available_until_unix'', SetTo (VInt 2)),
                        (''availableUntil_unix'', DELETE_FIELD),
                        (''availableUntilUnix'', DELETE_FIELD)]
                   [''availableUntil_unix'' \<mapsto> VInt 1, ''availableUntilUnix'' \<mapsto> VInt 2])"
    unfolding c by (simp add: store_after_def until_listing_def)
  then show ?thesis
    by (simp add: apply_update_def listings_fields_to_rename_def until_listing_def)
qed

section \<open>Fields and documents a run leaves alone\<close>

lemma rename_fields_keys:
  "fst ` set (rename_fields field_map data update_data)
     \<subseteq> fst ` set update_data \<union> fst ` set field_map \<union> snd ` set field_map"
proof (induction field_map arbitrary: update_data)
  case Nil
  show ?case by simp
next
  case (Cons p field_map)
  obtain old_name new_name where p: "p = (old_name, new_name)" by (cases p)
  show ?case
  proof (cases "data old_name")
    case None
    with Cons [of update_data] p show ?thesis by auto
  next
    case (Some v)
    let ?acc = "AList.update old_name DELETE_FIELD (AList.update new_name (SetTo v) update_data)"
    have "fst ` set ?acc = {old_name, new_name} \<union> fst ` set update_data"
      by (simp add: dom_update) blast
    with Cons [of ?acc] have "fst ` set (rename_fields field_map data ?acc)
        \<subseteq> {old_name, new_name} \<union> fst ` set update_data \<union> fst ` set field_map \<union> snd ` set field_map"
      by simp
    with Some p show ?thesis by auto
  qed
qed

lemma delete_fields_keys:
  "fst ` set (delete_fields fields_to_delete data update_data)
     \<subseteq> fst ` set update_data \<union> set fields_to_delete"
proof (induction fields_to_delete arbitrary: update_data)
  case Nil
  show ?case by simp
next
  case (Cons f fs)
  from Cons [of "AList.update f DELETE_FIELD update_data"] Cons [of update_data]
  show ?case by (simp add: dom_update) blast
qed

lemma i18n_update_keys:
  "fst ` set (i18n_update fields_to_rename fields_to_delete data)
     \<subseteq> {''source_language''} \<union> fst ` set fields_to_rename \<union> snd ` set fields_to_rename
         \<union> set fields_to_delete"
proof -
  have a: "fst ` set (add_source_language data []) \<subseteq> {''source_language''}"
    by (cases "data ''sourceLanguage''") (simp_all add: add_source_language_def)
  from delete_fields_keys [of fields_to_delete data
         "rename_fields fields_to_rename data (add_source_language data [])"]
       rename_fields_keys [of fields_to_rename data "add_source_language data []"] a
  show ?thesis unfolding i18n_update_def by blast
qed

lemma translate_field_result:
  assumes "translate_field field conversion_map doc_data update_payload = Inr acc"
  shows "acc = update_payload \<or> (\<exists>u. acc = AList.update field u update_payload)"
proof (cases "doc_data field")
  case None
  with assms show ?thesis by (simp add: translate_field_def)
next
  case (Some current)
  show ?thesis
  proof (cases current)
    case (VList current_value)
    show ?thesis
    proof (cases "translate_list conversion_map current_value [] False")
      case (Inl e)
      with assms Some VList show ?thesis by (simp add: translate_field_def)
    next
      case (Inr res)
      obtain new_list made_a_change where "res = (new_list, made_a_change)" by (cases res)
      with assms Some VList Inr show ?thesis
        by (cases made_a_change) (auto simp: translate_field_def)
    qed
  next
    case (VStr current_value)
    with assms Some show ?thesis
      by (cases "map_of conversion_map current_value")
         (auto simp: translate_field_def split: if_splits)
  qed (use assms Some in \<open>auto simp: translate_field_def\<close>)
qed

lemma translate_field_keys:
  assumes "translate_field field conversion_map doc_data update_payload = Inr acc"
  shows "fst ` set acc \<subseteq> insert field (fst ` set update_payload)"
proof -
  from translate_field_result [OF assms]
  consider "acc = update_payload" | u where "acc = AList.update field u update_payload" by blast
  then show ?thesis
  proof cases
    case 1
    then show ?thesis by auto
  next
    case 2
    then show ?thesis by (simp add: dom_update)
  qed
qed

lemma translate_field_other:
  assumes "translate_field field conversion_map doc_data update_payload = Inr acc"
    and "k \<noteq> field"
  shows "map_of acc k = map_of update_payload k"
proof -
  from translate_field_result [OF assms(1)]
  consider "acc = update_payload" | u where "acc = AList.update field u update_payload" by blast
  then show ?thesis
  proof cases
    case 1
    then show ?thesis by simp
  next
    case 2
    with assms(2) show ?thesis by (simp add: update_conv')
  qed
qed

lemma translate_fields_keys:
  "translate_fields conversion_rules doc_data update_payload = Inr P \<Longrightarrow>
     fst ` set P \<subseteq> fst ` set update_payload \<union> fst ` set conversion_rules"
proof (induction conversion_rules arbitrary: update_payload)
  case Nil
  then show ?case by simp
next
  case (Cons r conversion_rules)
  obtain field conversion_map where r: "r = (field, conversion_map)" by (cases r)
  from Cons.prems r obtain acc
    where step: "translate_field field conversion_map doc_data update_payload = Inr acc"
      and rest: "translate_fields conversion_rules doc_data acc = Inr P"
    by (auto split: sum.splits)
  from Cons.IH [OF rest] translate_field_keys [OF step] r show ?case by auto
qed

lemma unix_fields_keys:
  "fst ` set (unix_fields fs data update_data)
     \<subseteq> fst ` set update_data \<union> (\<lambda>field. field @ ''_unix'') ` set fs"
proof (induction fs arbitrary: update_data)
  case Nil
  show ?case by simp
next
  case (Cons field fs)
  let ?acc = "case data field of
                Some (VTime t) \<Rightarrow>
                  AList.update (field @ ''_unix'') (SetTo (VInt (int_of_float (timestamp t)))) update_data
              | _ \<Rightarrow> update_data"
  have "fst ` set ?acc \<subseteq> insert (field @ ''_unix'') (fst ` set update_data)"
    by (auto simp: dom_update split: option.splits val.splits)
  with Cons [of ?acc] show ?case by auto
qed

lemma timestamp_fields_keys:
  "timestamp_fields fs data update_data = Inr P \<Longrightarrow>
     fst ` set P \<subseteq> fst ` set update_data \<union> set fs"
proof (induction fs arbitrary: update_data)
  case Nil
  then show ?case by simp
next
  case (Cons field fs)
  have "\<exists>acc. timestamp_fields fs data acc = Inr P \<and>
              fst ` set acc \<subseteq> insert field (fst ` set update_data)"
  proof (cases "data field")
    case None
    with Cons.prems show ?thesis by auto
  next
    case (Some v)
    with Cons.prems have nf: "\<not> non_finite v" by (auto split: if_splits)
    show ?thesis
    proof (cases "number_of v")
      case None
      with Cons.prems Some nf show ?thesis by auto
    next
      case Some2: (Some ms)
      show ?thesis
      proof (cases "fromtimestamp_utc (nearest_double (ms / 1000))")
        case (Inl e)
        with Cons.prems Some Some2 nf show ?thesis by simp
      next
        case (Inr t)
        let ?acc = "AList.update field (SetTo (VTime t)) update_data"
        from Cons.prems Some Some2 Inr nf have "timestamp_fields fs data ?acc = Inr P" by simp
        moreover have "fst ` set ?acc \<subseteq> insert field (fst ` set update_data)"
          by (auto simp: dom_update)
        ultimately show ?thesis by blast
      qed
    qed
  qed
  then obtain acc where "timestamp_fields fs data acc = Inr P"
    and acc: "fst ` set acc \<subseteq> insert field (fst ` set update_data)" by blast
  from Cons.IH [OF this(1)] acc show ?case by auto
qed

lemma schema_listings_update_keys:
  assumes "schema_listings_update data = Inr P"
  shows "fst ` set P \<subseteq> {''availableFrom_unix'', ''availableUntil_unix'', ''createdAt'', ''updatedAt''}"
proof -
  from assms timestamp_fields_keys
  have "fst ` set P \<subseteq> fst ` set (unix_fields [''availableFrom'', ''availableUntil''] data [])
                      \<union> set [''createdAt'', ''updatedAt'']"
    unfolding schema_listings_update_def by blast
  moreover from unix_fields_keys [of "[''availableFrom'', ''availableUntil'']" data "[]"]
  have "fst ` set (unix_fields [''availableFrom'', ''availableUntil''] data [])
          \<subseteq> {''availableFrom_unix'', ''availableUntil_unix''}" by simp
  ultimately show ?thesis by auto
qed

lemma schema_users_update_keys:
  assumes "schema_users_update data = Inr P"
  shows "fst ` set P \<subseteq> {''desiredMoveInDate_unix'', ''desiredMoveOutDate_unix'', ''createdAt'', ''updatedAt''}"
proof -
  let ?acc = "if data ''role'' = Some (VStr ''inquilino'')
        then unix_fields [''desiredMoveInDate'', ''desiredMoveOutDate''] data []
        else []"
  from assms timestamp_fields_keys
  have "fst ` set P \<subseteq> fst ` set ?acc \<union> set [''createdAt'', ''updatedAt'']"
    unfolding schema_users_update_def by blast
  moreover from unix_fields_keys [of "[''desiredMoveInDate'', ''desiredMoveOutDate'']" data "[]"]
  have "fst ` set (unix_fields [''desiredMoveInDate'', ''desiredMoveOutDate''] data [])
          \<subseteq> {''desiredMoveInDate_unix'', ''desiredMoveOutDate_unix''}" by simp
  then have "fst ` set ?acc \<subseteq> {''desiredMoveInDate_unix'', ''desiredMoveOutDate_unix''}"
    by (cases "data ''role'' = Some (VStr ''inquilino'')") (simp_all del: unix_fields.simps)
  ultimately show ?thesis by auto
qed

lemma staged_updates_frame:
  assumes "\<And>data P. body data = Inr P \<Longrightarrow> fst ` set P \<subseteq> names"
  shows "\<forall>w \<in> set (staged_updates body docs). fst w \<in> fst ` set docs \<and> fst ` set (snd w) \<subseteq> names"
proof (induction docs)
  case Nil
  show ?case by simp
next
  case (Cons d docs)
  obtain doc_id data where d: "d = (doc_id, data)" by (cases d)
  show ?case
  proof (cases "body data")
    case (Inl e)
    with d show ?thesis by simp
  next
    case (Inr u)
    from assms [OF Inr] have "\<forall>c \<in> set u. fst c \<in> names" by auto
    with Cons.IH d Inr show ?thesis by auto
  qed
qed

lemma run_migration_writes:
  "concat (committed (snd (run_migration body docs))) @ batch (snd (run_migration body docs))
     = staged_updates body docs"
proof -
  define r where "r = snd (stream_loop body docs init_state)"
  have wr: "concat (committed r) @ batch r = staged_updates body docs"
    unfolding r_def using stream_loop_writes [of body docs init_state]
    by (simp add: init_state_def)
  have "snd (run_migration body docs) = r \<or> snd (run_migration body docs) = commit r"
    by (auto simp: run_migration_def final_commit_def r_def split: prod.splits option.splits)
  then show ?thesis
    using wr by (auto simp: commit_def)
qed

lemma fold_apply_update_untouched:
  "\<forall>P \<in> set Ps. k \<notin> fst ` set P \<Longrightarrow> fold apply_update Ps d k = d k"
  by (induction Ps arbitrary: d) (simp_all add: apply_update_untouched)

lemma store_after_ids: "map fst (store_after batches docs) = map fst docs"
  by (induction docs) (auto simp: store_after_def)

lemma store_after_nth:
  "i < length docs \<Longrightarrow>
     snd (store_after batches docs ! i) =
       fold apply_update (map snd (filter (\<lambda>w. fst w = fst (docs ! i)) (concat batches))) (snd (docs ! i))"
  by (simp add: store_after_def case_prod_beta)

lemma frame_run:
  assumes "\<And>data P. body data = Inr P \<Longrightarrow> fst ` set P \<subseteq> names"
  shows "frame names docs (run_migration body docs)"
proof -
  let ?s = "snd (run_migration body docs)"
  have st: "\<forall>w \<in> set (concat (committed ?s) @ batch ?s).
              fst w \<in> fst ` set docs \<and> fst ` set (snd w) \<subseteq> names"
    unfolding run_migration_writes using assms by (rule staged_updates_frame)
  have un: "\<forall>i < length docs. \<forall>k. k \<notin> names \<longrightarrow>
        snd (store_after (committed ?s) docs ! i) k = snd (docs ! i) k"
  proof (intro allI impI)
    fix i k
    assume i: "i < length docs" and k: "k \<notin> names"
    have "\<forall>P \<in> set (map snd (filter (\<lambda>w. fst w = fst (docs ! i)) (concat (committed ?s)))).
            k \<notin> fst ` set P"
    proof
      fix P
      assume "P \<in> set (map snd (filter (\<lambda>w. fst w = fst (docs ! i)) (concat (committed ?s))))"
      then obtain w where "w \<in> set (concat (committed ?s))" and "P = snd w" by auto
      with st have "fst ` set P \<subseteq> names" by auto
      with k show "k \<notin> fst ` set P" by blast
    qed
    then show "snd (store_after (committed ?s) docs ! i) k = snd (docs ! i) k"
      unfolding store_after_nth [OF i] by (rule fold_apply_update_untouched)
  qed
  from st un show ?thesis
    unfolding frame_def by (simp only: store_after_ids)
qed

text \<open>
  C10. In every script the staged payloads write or delete only names of the tables of that
  script: old and new names of the field map (\<^verbatim>\<open>migrate_case_style.py\<close>); the fields of the
  conversion rules (\<^verbatim>\<open>migrate_content_fields_i18n.py\<close>); the derived \<^verbatim>\<open>_unix\<close> names and the
  two audit timestamps (\<^verbatim>\<open>migrate_data_schema.py\<close>); \<^verbatim>\<open>source_language\<close>, the old and new
  names and the fields to delete (\<^verbatim>\<open>migrate_name_fields_i18n.py\<close>). Every other field keeps
  its value, and the only store operation is the update of a streamed document, so no
  document is created or deleted. This also holds for a run that is cut short by an
  exception.
\<close>

theorem frame_property:
  "frame (fst ` set field_map \<union> snd ` set field_map) docs (migrate_collection field_map docs) \<and>
   frame (fst ` set conversion_rules) docs (migrate_collection_content conversion_rules docs) \<and>
   frame {''availableFrom_unix'', ''availableUntil_unix'', ''createdAt'', ''updatedAt''} docs
     (schema_migrate_listings docs) \<and>
   frame {''desiredMoveInDate_unix'', ''desiredMoveOutDate_unix'', ''createdAt'', ''updatedAt''} docs
     (schema_migrate_users docs) \<and>
   frame ({''source_language''} \<union> fst ` set listings_fields_to_rename
            \<union> snd ` set listings_fields_to_rename \<union> set listings_fields_to_delete) docs
     (i18n_migrate_listings docs) \<and>
   frame ({''source_language''} \<union> fst ` set users_fields_to_rename
            \<union> snd ` set users_fields_to_rename \<union> set users_fields_to_delete) docs
     (i18n_migrate_users docs)"
proof (intro conjI)
  show "frame (fst ` set field_map \<union> snd ` set field_map) docs (migrate_collection field_map docs)"
    unfolding migrate_collection_def
    using rename_fields_keys [of field_map _ "[]"] by (intro frame_run) auto
  show "frame (fst ` set conversion_rules) docs (migrate_collection_content conversion_rules docs)"
    unfolding migrate_collection_content_def
    using translate_fields_keys [of conversion_rules _ "[]"] by (intro frame_run) auto
  show "frame {''availableFrom_unix'', ''availableUntil_unix'', ''createdAt'', ''updatedAt''} docs
     (schema_migrate_listings docs)"
    unfolding schema_migrate_listings_def by (intro frame_run) (rule schema_listings_update_keys)
  show "frame {''desiredMoveInDate_unix'', ''desiredMoveOutDate_unix'', ''createdAt'', ''updatedAt''} docs
     (schema_migrate_users docs)"
    unfolding schema_migrate_users_def by (intro frame_run) (rule schema_users_update_keys)
  show "frame ({''source_language''} \<union> fst ` set listings_fields_to_rename
            \<union> snd ` set listings_fields_to_rename \<union> set listings_fields_to_delete) docs
     (i18n_migrate_listings docs)"
    unfolding i18n_migrate_listings_def
    using i18n_update_keys [of listings_fields_to_rename listings_fields_to_delete]
    by (intro frame_run) auto
  show "frame ({''source_language''} \<union> fst ` set users_fields_to_rename
            \<union> snd ` set users_fields_to_rename \<union> set users_fields_to_delete) docs
     (i18n_migrate_users docs)"
    unfolding i18n_migrate_users_def
    using i18n_update_keys [of users_fields_to_rename users_fields_to_delete]
    by (intro frame_run) auto
qed


lemma two_listings_committed:
  "committed (snd (migrate_collection LISTINGS_FIELD_MAP two_listings)) =
     [[(''l1'', [(''has_wifi'', SetTo (VBool True)), (''hasWifi'', DELETE_FIELD)])]]"
  by (simp add: migrate_collection_def run_migration_def final_commit_def two_listings_def
      rename_wifi rename_title visit_def stage_update_def commit_def init_state_def Let_def)

text \<open>
  The two sample listings under the case-style map: the one staged update addresses a
  streamed document and its two keys are names of the map.
\<close>

theorem frame_property_witness:
  "concat (committed (snd (migrate_collection LISTINGS_FIELD_MAP two_listings))) =
     [(''l1'', [(''has_wifi'', SetTo (VBool True)), (''hasWifi'', DELETE_FIELD)])] \<and>
   ''l1'' \<in> fst ` set two_listings \<and>
   ''hasWifi'' \<in> fst ` set LISTINGS_FIELD_MAP \<and>
   ''has_wifi'' \<in> snd ` set LISTINGS_FIELD_MAP \<and>
   frame (fst ` set LISTINGS_FIELD_MAP \<union> snd ` set LISTINGS_FIELD_MAP) two_listings
     (migrate_collection LISTINGS_FIELD_MAP two_listings)"
proof -
  have f: "frame (fst ` set LISTINGS_FIELD_MAP \<union> snd ` set LISTINGS_FIELD_MAP) two_listings
     (migrate_collection LISTINGS_FIELD_MAP two_listings)"
    using frame_property [of LISTINGS_FIELD_MAP two_listings] by (rule conjunct1)
  have "''l1'' \<in> fst ` set two_listings" by (simp add: two_listings_def)
  moreover have "''hasWifi'' \<in> fst ` set LISTINGS_FIELD_MAP"
    and "''has_wifi'' \<in> snd ` set LISTINGS_FIELD_MAP"
    by (simp_all add: LISTINGS_FIELD_MAP_def)
  ultimately show ?thesis using f by (simp add: two_listings_committed)
qed

section \<open>Translated field contents\<close>

lemma py_ne_iff: "py_ne a b \<longleftrightarrow> a = VNaN \<or> b = VNaN \<or> a \<noteq> b"
  by (simp add: py_ne_def)

lemma translate_list_hashable:
  "\<forall>x \<in> set items. hashable x \<Longrightarrow>
     translate_list conversion_map items new_list made_a_change =
       Inr (new_list @ map (translate_item conversion_map) items,
            made_a_change \<or> (\<exists>x \<in> set items. py_ne (translate_item conversion_map x) x))"
  by (induction items arbitrary: new_list made_a_change) (auto simp: Let_def)

lemma translate_list_unhashable:
  "\<exists>x \<in> set items. \<not> hashable x \<Longrightarrow>
     translate_list conversion_map items new_list made_a_change = Inl TypeError"
  by (induction items arbitrary: new_list made_a_change) (auto simp: Let_def)

lemma translate_field_str:
  assumes "doc_data field = Some (VStr s)"
  shows "translate_field field conversion_map doc_data update_payload =
           Inr (case map_of conversion_map s of
                  Some t \<Rightarrow> if t \<noteq> [] then AList.update field (SetTo (VStr t)) update_payload
                            else update_payload
                | None \<Rightarrow> update_payload)"
  using assms by (simp add: translate_field_def split: option.splits)

lemma translate_field_list:
  assumes "doc_data field = Some (VList items)" and "\<forall>x \<in> set items. hashable x"
  shows "translate_field field conversion_map doc_data update_payload =
           Inr (if \<exists>x \<in> set items. py_ne (translate_item conversion_map x) x
                then AList.update field
                       (SetTo (VList (map (translate_item conversion_map) items))) update_payload
                else update_payload)"
  using assms by (simp add: translate_field_def translate_list_hashable)

lemma translate_field_list_raises:
  assumes "doc_data field = Some (VList items)" and "\<exists>x \<in> set items. \<not> hashable x"
  shows "translate_field field conversion_map doc_data update_payload = Inl TypeError"
  using assms by (simp add: translate_field_def translate_list_unhashable)

lemma translate_field_total:
  assumes "\<And>items. doc_data field = Some (VList items) \<Longrightarrow> \<forall>x \<in> set items. hashable x"
  shows "\<exists>acc. translate_field field conversion_map doc_data update_payload = Inr acc"
proof (cases "doc_data field")
  case None
  then show ?thesis by (simp add: translate_field_def)
next
  case (Some current)
  show ?thesis
  proof (cases current)
    case (VList items)
    with Some assms show ?thesis by (simp add: translate_field_list)
  next
    case (VStr s)
    with Some show ?thesis by (simp add: translate_field_str)
  qed (use Some in \<open>simp_all add: translate_field_def\<close>)
qed

lemma translate_fields_total:
  assumes "\<forall>r \<in> set conversion_rules. \<forall>items.
             doc_data (fst r) = Some (VList items) \<longrightarrow> (\<forall>x \<in> set items. hashable x)"
  shows "\<exists>P. translate_fields conversion_rules doc_data update_payload = Inr P"
  using assms
proof (induction conversion_rules arbitrary: update_payload)
  case Nil
  show ?case by simp
next
  case (Cons r conversion_rules)
  obtain field conversion_map where r: "r = (field, conversion_map)" by (cases r)
  from Cons.prems r
  have "\<And>items. doc_data field = Some (VList items) \<Longrightarrow> \<forall>x \<in> set items. hashable x" by simp
  then obtain acc where acc: "translate_field field conversion_map doc_data update_payload = Inr acc"
    using translate_field_total by blast
  from Cons.prems have "\<forall>r \<in> set conversion_rules. \<forall>items.
             doc_data (fst r) = Some (VList items) \<longrightarrow> (\<forall>x \<in> set items. hashable x)" by simp
  from Cons.IH [OF this, of acc] r acc show ?case by simp
qed

lemma translate_fields_other:
  "translate_fields conversion_rules doc_data update_payload = Inr P \<Longrightarrow>
   k \<notin> fst ` set conversion_rules \<Longrightarrow> map_of P k = map_of update_payload k"
proof (induction conversion_rules arbitrary: update_payload)
  case Nil
  then show ?case by simp
next
  case (Cons r conversion_rules)
  obtain field conversion_map where r: "r = (field, conversion_map)" by (cases r)
  from Cons.prems(1) r obtain acc
    where step: "translate_field field conversion_map doc_data update_payload = Inr acc"
      and rest: "translate_fields conversion_rules doc_data acc = Inr P"
    by (auto split: sum.splits)
  from Cons.prems(2) r have k: "k \<noteq> field" "k \<notin> fst ` set conversion_rules" by auto
  from Cons.IH [OF rest k(2)] translate_field_other [OF step k(1)] show ?case by simp
qed

lemma translate_fields_at:
  assumes "distinct (map fst conversion_rules)" and "(field, conversion_map) \<in> set conversion_rules"
    and "translate_fields conversion_rules doc_data update_payload = Inr P"
  shows "\<exists>a a'. translate_field field conversion_map doc_data a = Inr a' \<and>
                 map_of a field = map_of update_payload field \<and> map_of P field = map_of a' field"
  using assms
proof (induction conversion_rules arbitrary: update_payload)
  case Nil
  then show ?case by simp
next
  case (Cons r conversion_rules)
  obtain f m where r: "r = (f, m)" by (cases r)
  from Cons.prems(3) r obtain acc
    where step: "translate_field f m doc_data update_payload = Inr acc"
      and rest: "translate_fields conversion_rules doc_data acc = Inr P"
    by (auto split: sum.splits)
  from Cons.prems(1) r have fresh: "f \<notin> fst ` set conversion_rules"
    and dist: "distinct (map fst conversion_rules)" by simp_all
  show ?case
  proof (cases "f = field")
    case True
    with fresh Cons.prems(2) r have "m = conversion_map" by force
    moreover from True fresh rest have "map_of P field = map_of acc field"
      by (simp add: translate_fields_other)
    ultimately show ?thesis using step True by blast
  next
    case False
    with Cons.prems(2) r have "(field, conversion_map) \<in> set conversion_rules" by auto
    from Cons.IH [OF dist this rest] obtain a a'
      where "translate_field field conversion_map doc_data a = Inr a'"
        and "map_of a field = map_of acc field" and "map_of P field = map_of a' field" by blast
    moreover from False have "map_of acc field = map_of update_payload field"
      using translate_field_other [OF step] by simp
    ultimately show ?thesis by auto
  qed
qed

lemma translate_fields_distinct:
  "translate_fields conversion_rules doc_data update_payload = Inr P \<Longrightarrow>
   distinct (map fst update_payload) \<Longrightarrow> distinct (map fst P)"
proof (induction conversion_rules arbitrary: update_payload)
  case Nil
  then show ?case by simp
next
  case (Cons r conversion_rules)
  obtain field conversion_map where r: "r = (field, conversion_map)" by (cases r)
  from Cons.prems(1) r obtain acc
    where step: "translate_field field conversion_map doc_data update_payload = Inr acc"
      and rest: "translate_fields conversion_rules doc_data acc = Inr P"
    by (auto split: sum.splits)
  from translate_field_result [OF step] Cons.prems(2) have "distinct (map fst acc)"
    by (auto simp: distinct_update)
  with rest show ?case by (rule Cons.IH)
qed

lemma configured_rules_distinct:
  "distinct (map fst users_conversion_rules)" "distinct (map fst listings_conversion_rules)"
  by (simp_all add: users_conversion_rules_def listings_conversion_rules_def)

lemma configured_translations_nonempty:
  "\<forall>r \<in> set users_conversion_rules. \<forall>c \<in> set (snd r). snd c \<noteq> []"
  "\<forall>r \<in> set listings_conversion_rules. \<forall>c \<in> set (snd r). snd c \<noteq> []"
  by (simp_all add: users_conversion_rules_def listings_conversion_rules_def)


lemma configured_rules:
  assumes "(collection_name, conversion_rules) \<in> set CONTENT_CONVERSION_MAP"
  shows "distinct (map fst conversion_rules)"
    and "\<forall>r \<in> set conversion_rules. \<forall>c \<in> set (snd r). snd c \<noteq> []"
proof -
  from assms have "conversion_rules = users_conversion_rules \<or> conversion_rules = listings_conversion_rules"
    by (auto simp: CONTENT_CONVERSION_MAP_def)
  then show "distinct (map fst conversion_rules)"
    using configured_rules_distinct by auto
  from \<open>conversion_rules = users_conversion_rules \<or> conversion_rules = listings_conversion_rules\<close>
  show "\<forall>r \<in> set conversion_rules. \<forall>c \<in> set (snd r). snd c \<noteq> []"
    using configured_translations_nonempty by blast
qed

text \<open>
  C6. Take a rule \<open>(field, conversion_map)\<close> of a configured conversion table and a document
  whose \<open>field\<close> is a string \<open>s\<close>, and suppose no rule field of the document holds a list
  with a nested list or map (on such a list the script raises, see \<open>nested_map_raises\<close>).
  Then the payload of the document is built, it has an entry for \<open>field\<close> exactly when
  \<open>s\<close> is a key of \<open>conversion_map\<close>, the entry is the translation of \<open>s\<close>, and after
  the update the field holds the translation, or still \<open>s\<close> when \<open>s\<close> is not a key.
\<close>

theorem translate_scalar:
  assumes "(collection_name, conversion_rules) \<in> set CONTENT_CONVERSION_MAP"
    and "(field, conversion_map) \<in> set conversion_rules"
    and "doc_data field = Some (VStr s)"
    and "\<forall>r \<in> set conversion_rules. \<forall>items.
           doc_data (fst r) = Some (VList items) \<longrightarrow> (\<forall>x \<in> set items. hashable x)"
  shows "\<exists>P. translate_fields conversion_rules doc_data [] = Inr P \<and>
             (field \<in> fst ` set P \<longleftrightarrow> s \<in> fst ` set conversion_map) \<and>
             map_of P field =
               (case map_of conversion_map s of Some t \<Rightarrow> Some (SetTo (VStr t)) | None \<Rightarrow> None) \<and>
             apply_update P doc_data field =
               Some (VStr (case map_of conversion_map s of Some t \<Rightarrow> t | None \<Rightarrow> s))"
proof -
  note cfg = configured_rules [OF assms(1)]
  from translate_fields_total [OF assms(4)] obtain P
    where P: "translate_fields conversion_rules doc_data [] = Inr P" by blast
  from translate_fields_at [OF cfg(1) assms(2) P] obtain a a'
    where step: "translate_field field conversion_map doc_data a = Inr a'"
      and a: "map_of a field = None" and Pa: "map_of P field = map_of a' field" by auto
  have nonempty: "\<And>t. map_of conversion_map s = Some t \<Longrightarrow> t \<noteq> []"
  proof -
    fix t
    assume "map_of conversion_map s = Some t"
    then have "(s, t) \<in> set conversion_map" by (rule map_of_SomeD)
    with cfg(2) assms(2) show "t \<noteq> []" by force
  qed
  have staged: "map_of P field =
      (case map_of conversion_map s of Some t \<Rightarrow> Some (SetTo (VStr t)) | None \<Rightarrow> None)"
  proof (cases "map_of conversion_map s")
    case None
    with step assms(3) a Pa show ?thesis by (simp add: translate_field_str)
  next
    case (Some t)
    with nonempty have "t \<noteq> []" by simp
    with step assms(3) Some Pa show ?thesis by (auto simp: translate_field_str update_conv')
  qed
  have dist: "distinct (map fst P)"
    using P by (rule translate_fields_distinct) simp
  have "field \<in> fst ` set P \<longleftrightarrow> map_of P field \<noteq> None"
    by (simp add: map_of_eq_None_iff)
  moreover have "s \<in> fst ` set conversion_map \<longleftrightarrow> map_of conversion_map s \<noteq> None"
    by (simp add: map_of_eq_None_iff)
  ultimately have dom: "field \<in> fst ` set P \<longleftrightarrow> s \<in> fst ` set conversion_map"
    using staged by (cases "map_of conversion_map s") simp_all
  have after: "apply_update P doc_data field =
      Some (VStr (case map_of conversion_map s of Some t \<Rightarrow> t | None \<Rightarrow> s))"
    using staged assms(3)
    by (cases "map_of conversion_map s") (simp_all add: apply_update_lookup [OF dist])
  from P dom staged after show ?thesis by blast
qed

text \<open>
  The list rule on a list of hashable elements. Take a rule \<open>(field, conversion_map)\<close> of a
  configured conversion table and a document whose \<open>field\<close> is a list, and suppose no rule
  field of the document holds a list with a nested list or map. Then the payload of the
  document is built; it has an entry for \<open>field\<close> exactly when some element compares unequal
  to its translation, and the entry is the whole list with every element translated in
  place (\<open>translate_item\<close>: the value of the map for a string that is a key, the element
  itself otherwise). After the update the field holds that list.
\<close>

lemma translate_sequence_hashable:
  assumes "(collection_name, conversion_rules) \<in> set CONTENT_CONVERSION_MAP"
    and "(field, conversion_map) \<in> set conversion_rules"
    and "doc_data field = Some (VList items)"
    and "\<forall>r \<in> set conversion_rules. \<forall>items.
           doc_data (fst r) = Some (VList items) \<longrightarrow> (\<forall>x \<in> set items. hashable x)"
  shows "\<exists>P. translate_fields conversion_rules doc_data [] = Inr P \<and>
             map_of P field =
               (if \<exists>x \<in> set items. py_ne (translate_item conversion_map x) x
                then Some (SetTo (VList (map (translate_item conversion_map) items)))
                else None) \<and>
             apply_update P doc_data field =
               Some (VList (map (translate_item conversion_map) items))"
proof -
  note cfg = configured_rules [OF assms(1)]
  from translate_fields_total [OF assms(4)] obtain P
    where P: "translate_fields conversion_rules doc_data [] = Inr P" by blast
  from translate_fields_at [OF cfg(1) assms(2) P] obtain a a'
    where step: "translate_field field conversion_map doc_data a = Inr a'"
      and a: "map_of a field = None" and Pa: "map_of P field = map_of a' field" by auto
  from assms(2,3,4) have h: "\<forall>x \<in> set items. hashable x" by force
  have staged: "map_of P field =
      (if \<exists>x \<in> set items. py_ne (translate_item conversion_map x) x
       then Some (SetTo (VList (map (translate_item conversion_map) items)))
       else None)"
    using step a Pa
    by (auto simp: translate_field_list
          [where doc_data = doc_data and field = field and items = items, OF assms(3) h]
        update_conv')
  have dist: "distinct (map fst P)"
    using P by (rule translate_fields_distinct) simp
  have after: "apply_update P doc_data field =
      Some (VList (map (translate_item conversion_map) items))"
  proof (cases "\<exists>x \<in> set items. py_ne (translate_item conversion_map x) x")
    case True
    with staged show ?thesis by (simp add: apply_update_lookup [OF dist])
  next
    case False
    then have "\<forall>x \<in> set items. translate_item conversion_map x = x"
      by (simp add: py_ne_iff)
    then have "map (translate_item conversion_map) items = items" by (simp add: map_idI)
    with False staged assms(3) show ?thesis by (simp add: apply_update_lookup [OF dist])
  qed
  from P staged after show ?thesis by blast
qed


lemma users_configured: "(''users'', users_conversion_rules) \<in> set CONTENT_CONVERSION_MAP"
  by (simp add: CONTENT_CONVERSION_MAP_def)

text \<open>
  The users' rule for \<^verbatim>\<open>role\<close>: \<^verbatim>\<open>inquilino\<close> becomes \<^verbatim>\<open>tenant\<close>; \<^verbatim>\<open>unmapped_value\<close> stages
  nothing and stays.
\<close>

theorem translate_scalar_witness:
  "(''users'', users_conversion_rules) \<in> set CONTENT_CONVERSION_MAP \<and>
   (''role'', [(''inquilino'', ''tenant''), (''casero'', ''landlord'')]) \<in> set users_conversion_rules \<and>
   (\<exists>P. translate_fields users_conversion_rules [''role'' \<mapsto> VStr ''inquilino''] [] = Inr P \<and>
        map_of P ''role'' = Some (SetTo (VStr ''tenant'')) \<and>
        apply_update P [''role'' \<mapsto> VStr ''inquilino''] ''role'' = Some (VStr ''tenant'')) \<and>
   (\<exists>P. translate_fields users_conversion_rules [''role'' \<mapsto> VStr ''unmapped_value''] [] = Inr P \<and>
        map_of P ''role'' = None \<and>
        apply_update P [''role'' \<mapsto> VStr ''unmapped_value''] ''role'' = Some (VStr ''unmapped_value''))"
proof -
  let ?m = "[(''inquilino'', ''tenant''), (''casero'', ''landlord'')]"
  have r: "(''role'', ?m) \<in> set users_conversion_rules"
    by (simp add: users_conversion_rules_def)
  have v1: "[''role'' \<mapsto> VStr ''inquilino''] ''role'' = Some (VStr ''inquilino'')"
    and v2: "[''role'' \<mapsto> VStr ''unmapped_value''] ''role'' = Some (VStr ''unmapped_value'')"
    by simp_all
  have h1: "\<forall>r \<in> set users_conversion_rules. \<forall>items.
           [''role'' \<mapsto> VStr ''inquilino''] (fst r) = Some (VList items) \<longrightarrow> (\<forall>x \<in> set items. hashable x)"
    and h2: "\<forall>r \<in> set users_conversion_rules. \<forall>items.
           [''role'' \<mapsto> VStr ''unmapped_value''] (fst r) = Some (VList items) \<longrightarrow> (\<forall>x \<in> set items. hashable x)"
    by (simp_all add: users_conversion_rules_def)
  from translate_scalar [where doc_data = "[''role'' \<mapsto> VStr ''inquilino'']" and field = "''role''",
      OF users_configured r v1 h1]
  have a: "\<exists>P. translate_fields users_conversion_rules [''role'' \<mapsto> VStr ''inquilino''] [] = Inr P \<and>
        map_of P ''role'' = Some (SetTo (VStr ''tenant'')) \<and>
        apply_update P [''role'' \<mapsto> VStr ''inquilino''] ''role'' = Some (VStr ''tenant'')"
    by auto
  from translate_scalar [where doc_data = "[''role'' \<mapsto> VStr ''unmapped_value'']" and field = "''role''",
      OF users_configured r v2 h2]
  have b: "\<exists>P. translate_fields users_conversion_rules [''role'' \<mapsto> VStr ''unmapped_value''] [] = Inr P \<and>
        map_of P ''role'' = None \<and>
        apply_update P [''role'' \<mapsto> VStr ''unmapped_value''] ''role'' = Some (VStr ''unmapped_value'')"
    by auto
  from users_configured r a b show ?thesis by (intro conjI)
qed

text \<open>
  The users' rule for \<^verbatim>\<open>flatmate_traits\<close> on \<^verbatim>\<open>["Independencia", "Unknown"]\<close>: the update is
  staged and sets the field to \<^verbatim>\<open>["independence", "Unknown"]\<close>.
\<close>

lemma translate_sequence_example:
  "(''users'', users_conversion_rules) \<in> set CONTENT_CONVERSION_MAP \<and>
   (\<exists>conversion_map. (''flatmate_traits'', conversion_map) \<in> set users_conversion_rules \<and>
      map_of conversion_map ''Independencia'' = Some ''independence'' \<and>
      map_of conversion_map ''Unknown'' = None) \<and>
   (\<exists>P. translate_fields users_conversion_rules
           [''flatmate_traits'' \<mapsto> VList [VStr ''Independencia'', VStr ''Unknown'']] [] = Inr P \<and>
        map_of P ''flatmate_traits'' =
          Some (SetTo (VList [VStr ''independence'', VStr ''Unknown''])) \<and>
        apply_update P [''flatmate_traits'' \<mapsto> VList [VStr ''Independencia'', VStr ''Unknown'']]
          ''flatmate_traits'' = Some (VList [VStr ''independence'', VStr ''Unknown'']))"
proof -
  let ?m = "[(''Independencia'', ''independence''), (''Respeto'', ''respect''),
             (''Confianza'', ''trustworthiness''), (''Limpieza'', ''cleanliness''),
             (''Sociabilidad'', ''sociability'')]"
  let ?d = "[''flatmate_traits'' \<mapsto> VList [VStr ''Independencia'', VStr ''Unknown'']]"
  have r: "(''flatmate_traits'', ?m) \<in> set users_conversion_rules"
    by (simp add: users_conversion_rules_def)
  have v: "?d ''flatmate_traits'' = Some (VList [VStr ''Independencia'', VStr ''Unknown''])"
    by simp
  have h: "\<forall>r \<in> set users_conversion_rules. \<forall>items.
           ?d (fst r) = Some (VList items) \<longrightarrow> (\<forall>x \<in> set items. hashable x)"
    by (simp add: users_conversion_rules_def)
  from translate_sequence_hashable [where doc_data = ?d and field = "''flatmate_traits''",
      OF users_configured r v h]
  have a: "\<exists>P. translate_fields users_conversion_rules ?d [] = Inr P \<and>
        map_of P ''flatmate_traits'' =
          Some (SetTo (VList [VStr ''independence'', VStr ''Unknown''])) \<and>
        apply_update P ?d ''flatmate_traits'' = Some (VList [VStr ''independence'', VStr ''Unknown''])"
    by (simp add: py_ne_def)
  have m: "map_of ?m ''Independencia'' = Some ''independence''" "map_of ?m ''Unknown'' = None"
    by simp_all
  with r have b: "\<exists>conversion_map. (''flatmate_traits'', conversion_map) \<in> set users_conversion_rules \<and>
      map_of conversion_map ''Independencia'' = Some ''independence'' \<and>
      map_of conversion_map ''Unknown'' = None" by blast
  from users_configured b a show ?thesis by (intro conjI)
qed

text \<open>A list that holds a nested map: looking the map up as a key raises \<^verbatim>\<open>TypeError\<close>.\<close>

lemma nested_map_raises:
  "translate_fields users_conversion_rules [''flatmate_traits'' \<mapsto> VList [VMap []]] [] = Inl TypeError"
  by (simp add: users_conversion_rules_def translate_field_def)

text \<open>
  C7 fails on two kinds of elements. The lookup \<^verbatim>\<open>conversion_map.get(item, item)\<close> hashes the
  element, so a user whose \<^verbatim>\<open>flatmate_traits\<close> holds a nested map next to \<^verbatim>\<open>Independencia\<close> is
  not left with the map passed through: the script raises \<^verbatim>\<open>TypeError\<close>, the run ends there
  and nothing is committed. And the test \<^verbatim>\<open>translated_item != item\<close> holds for \<^verbatim>\<open>nan\<close>, so a
  list holding \<^verbatim>\<open>nan\<close> is staged although the translation changes none of its elements.
\<close>

theorem unmapped_element_not_passed_through:
  "translate_fields users_conversion_rules
     [''flatmate_traits'' \<mapsto> VList [VStr ''Independencia'', VMap [(''name'', VStr ''Orden'')]]] []
     = Inl TypeError \<and>
   migrate_collection_content users_conversion_rules
     [(''u1'', [''flatmate_traits'' \<mapsto>
                 VList [VStr ''Independencia'', VMap [(''name'', VStr ''Orden'')]]])]
     = (Some TypeError, init_state) \<and>
   translate_fields users_conversion_rules [''flatmate_traits'' \<mapsto> VList [VNaN]] []
     = Inr [(''flatmate_traits'', SetTo (VList [VNaN]))]"
proof -
  have a: "translate_fields users_conversion_rules
     [''flatmate_traits'' \<mapsto> VList [VStr ''Independencia'', VMap [(''name'', VStr ''Orden'')]]] []
     = Inl TypeError"
    by (simp add: users_conversion_rules_def translate_field_def)
  then have b: "migrate_collection_content users_conversion_rules
     [(''u1'', [''flatmate_traits'' \<mapsto>
                 VList [VStr ''Independencia'', VMap [(''name'', VStr ''Orden'')]]])]
     = (Some TypeError, init_state)"
    by (simp add: migrate_collection_content_def run_migration_def final_commit_def)
  have c: "translate_fields users_conversion_rules [''flatmate_traits'' \<mapsto> VList [VNaN]] []
     = Inr [(''flatmate_traits'', SetTo (VList [VNaN]))]"
    by (simp add: users_conversion_rules_def translate_field_def py_ne_def)
  from a b c show ?thesis by (intro conjI)
qed

section \<open>Rounding to the nearest double\<close>

lemma round_half_even_cases:
  "round_half_even y = \<lfloor>y\<rfloor> \<or> round_half_even y = \<lfloor>y\<rfloor> + 1"
  by (simp add: round_half_even_def Let_def)

lemma round_half_even_of_int: "round_half_even (of_int i) = i"
  by (simp add: round_half_even_def)

lemma round_half_even_ge: "of_int j \<le> y \<Longrightarrow> j \<le> round_half_even y"
proof -
  assume "of_int j \<le> y"
  then have "j \<le> \<lfloor>y\<rfloor>" by (simp add: le_floor_iff)
  with round_half_even_cases [of y] show ?thesis by linarith
qed

lemma round_half_even_le: "y \<le> of_int j \<Longrightarrow> round_half_even y \<le> j"
proof (cases "y = of_int j")
  case True
  then show ?thesis by (simp add: round_half_even_of_int)
next
  case False
  assume "y \<le> of_int j"
  with False have "y < of_int j" by simp
  then have "\<lfloor>y\<rfloor> < j" by (simp add: floor_less_iff)
  with round_half_even_cases [of y] show ?thesis by linarith
qed

lemma round_half_even_error: "\<bar>of_int (round_half_even y) - y\<bar> \<le> 1 / 2"
proof -
  define d where "d = y - of_int \<lfloor>y\<rfloor>"
  have d: "0 \<le> d" "d < 1" unfolding d_def by linarith+
  have y: "y = of_int \<lfloor>y\<rfloor> + d" by (simp add: d_def)
  consider "round_half_even y = \<lfloor>y\<rfloor>" "d \<le> 1 / 2"
    | "round_half_even y = \<lfloor>y\<rfloor> + 1" "1 / 2 \<le> d"
    unfolding round_half_even_def Let_def d_def [symmetric]
    by (cases "d < 1 / 2"; cases "1 / 2 < d"; cases "even \<lfloor>y\<rfloor>") auto
  then show ?thesis
  proof cases
    case 1
    have "of_int (round_half_even y) - y = - d" unfolding 1(1) by (simp add: d_def)
    with d 1(2) show ?thesis by simp
  next
    case 2
    have "of_int (round_half_even y) - y = 1 - d" unfolding 2(1) by (simp add: d_def)
    with d 2(2) show ?thesis by simp
  qed
qed

lemma floor_log2_le:
  assumes "0 < x"
  shows "2 powi floor_log2 x \<le> x"
proof (cases "1 \<le> x")
  case True
  then have pos: "0 < \<lfloor>x\<rfloor>" by linarith
  then have "1 \<le> bitlen \<lfloor>x\<rfloor>" using bitlen_eq_zero_iff [of "\<lfloor>x\<rfloor>"] bitlen_nonneg [of "\<lfloor>x\<rfloor>"]
    by linarith
  then have "(2 :: rat) powi (bitlen \<lfloor>x\<rfloor> - 1) = 2 ^ nat (bitlen \<lfloor>x\<rfloor> - 1)"
    by (simp add: power_int_nonneg_exp)
  also have "\<dots> = of_int (2 ^ nat (bitlen \<lfloor>x\<rfloor> - 1))" by simp
  also from bitlen_bounds [OF pos] have "\<dots> \<le> of_int \<lfloor>x\<rfloor>"
    by (simp only: of_int_le_iff)
  also have "\<dots> \<le> x" by simp
  finally show ?thesis using True by (simp add: floor_log2_def)
next
  case False
  let ?n = "\<lceil>1 / x\<rceil>"
  let ?k = "bitlen (?n - 1)"
  from False assms have "1 < 1 / x" by simp
  then have n: "2 \<le> ?n" by linarith
  then have pos: "0 < ?n - 1" by simp
  from bitlen_bounds [OF pos] have "?n - 1 < 2 ^ nat ?k" by simp
  then have "?n \<le> 2 ^ nat ?k" by simp
  then have "(of_int ?n :: rat) \<le> of_int (2 ^ nat ?k)" by (simp only: of_int_le_iff)
  also have "(of_int (2 ^ nat ?k) :: rat) = 2 ^ nat ?k" by simp
  finally have "(of_int ?n :: rat) \<le> 2 ^ nat ?k" .
  moreover have "1 / x \<le> of_int ?n" by (rule le_of_int_ceiling)
  ultimately have "1 / x \<le> 2 ^ nat ?k" by (rule order_trans [rotated])
  with assms have "1 / 2 ^ nat ?k \<le> x"
    by (simp add: field_simps)
  moreover have "(2 :: rat) powi (- ?k) = 1 / 2 ^ nat ?k"
    using bitlen_nonneg [of "?n - 1"]
    by (simp add: power_int_minus power_int_nonneg_exp field_simps)
  ultimately show ?thesis using False by (simp add: floor_log2_def)
qed

lemma floor_log2_less:
  assumes "0 < x" and "x < 2 powi K"
  shows "floor_log2 x < K"
proof (rule ccontr)
  assume "\<not> floor_log2 x < K"
  then have "K \<le> floor_log2 x" by simp
  then have "(2 :: rat) powi K \<le> 2 powi floor_log2 x"
    by (intro power_int_increasing) simp_all
  with floor_log2_le [OF assms(1)] assms(2) show False by simp
qed

lemma ulp_pos: "0 < ulp x"
  by (simp add: ulp_def)

lemma ulp_le:
  assumes "x \<noteq> 0" and "\<bar>x\<bar> < 2 powi K" and "- 1022 < K"
  shows "ulp x \<le> 2 powi (K - 53)"
proof -
  from assms(1) have "0 < \<bar>x\<bar>" by simp
  from floor_log2_less [OF this assms(2)] assms(3)
  have "max (floor_log2 \<bar>x\<bar>) (- 1022) - 52 \<le> K - 53" by simp
  then show ?thesis unfolding ulp_def by (intro power_int_increasing) simp_all
qed

lemma ulp_inverse_power:
  assumes "x \<noteq> 0" and "\<bar>x\<bar> < 2 powi 53"
  shows "\<exists>m. ulp x = 1 / 2 ^ m"
proof -
  from assms(1) have "0 < \<bar>x\<bar>" by simp
  from floor_log2_less [OF this assms(2)]
  have le: "max (floor_log2 \<bar>x\<bar>) (- 1022) - 52 \<le> 0" by simp
  define m where "m = nat (52 - max (floor_log2 \<bar>x\<bar>) (- 1022))"
  from le have "max (floor_log2 \<bar>x\<bar>) (- 1022) - 52 = - int m" by (simp add: m_def)
  then have "ulp x = 2 powi (- int m)" by (simp add: ulp_def)
  also have "\<dots> = 1 / 2 ^ m" by (simp add: power_int_minus field_simps)
  finally show ?thesis by blast
qed

lemma nearest_double_ge:
  assumes "\<bar>x\<bar> < 2 powi 53" and "of_int j \<le> x"
  shows "of_int j \<le> nearest_double x"
proof (cases "x = 0")
  case True
  with assms(2) show ?thesis by (simp add: nearest_double_def)
next
  case False
  from ulp_inverse_power [OF False assms(1)] obtain m where u: "ulp x = 1 / 2 ^ m" by blast
  have "of_int (j * 2 ^ m) \<le> x / ulp x"
    using assms(2) by (simp add: u mult_right_mono)
  then have "j * 2 ^ m \<le> round_half_even (x / ulp x)" by (rule round_half_even_ge)
  then have "(of_int (j * 2 ^ m) :: rat) \<le> of_int (round_half_even (x / ulp x))"
    by (simp only: of_int_le_iff)
  then have "(of_int j :: rat) * 2 ^ m \<le> of_int (round_half_even (x / ulp x))" by simp
  then have "(of_int j :: rat) \<le> of_int (round_half_even (x / ulp x)) / 2 ^ m"
    by (simp add: pos_le_divide_eq)
  with False show ?thesis by (simp add: nearest_double_def u)
qed

lemma nearest_double_le:
  assumes "\<bar>x\<bar> < 2 powi 53" and "x \<le> of_int j"
  shows "nearest_double x \<le> of_int j"
proof (cases "x = 0")
  case True
  with assms(2) show ?thesis by (simp add: nearest_double_def)
next
  case False
  from ulp_inverse_power [OF False assms(1)] obtain m where u: "ulp x = 1 / 2 ^ m" by blast
  have "x / ulp x \<le> of_int (j * 2 ^ m)"
    using assms(2) by (simp add: u mult_right_mono)
  then have "round_half_even (x / ulp x) \<le> j * 2 ^ m" by (rule round_half_even_le)
  then have "(of_int (round_half_even (x / ulp x)) :: rat) \<le> of_int (j * 2 ^ m)"
    by (simp only: of_int_le_iff)
  then have "(of_int (round_half_even (x / ulp x)) :: rat) \<le> of_int j * 2 ^ m" by simp
  then have "(of_int (round_half_even (x / ulp x)) :: rat) / 2 ^ m \<le> of_int j"
    by (simp add: pos_divide_le_eq)
  with False show ?thesis by (simp add: nearest_double_def u)
qed

lemma nearest_double_of_int:
  assumes "\<bar>n\<bar> < 2 ^ 53"
  shows "nearest_double (of_int n) = of_int n"
proof -
  from assms have "\<bar>of_int n :: rat\<bar> < 2 powi 53"
    by (simp flip: of_int_abs add: of_int_less_numeral_power_cancel_iff)
  from nearest_double_ge [OF this, of n] nearest_double_le [OF this, of n]
  show ?thesis by simp
qed

lemma nearest_double_error: "\<bar>nearest_double x - x\<bar> \<le> ulp x / 2"
proof (cases "x = 0")
  case True
  then show ?thesis using ulp_pos [of x] by (simp add: nearest_double_def)
next
  case False
  have "nearest_double x - x = (of_int (round_half_even (x / ulp x)) - x / ulp x) * ulp x"
    using False ulp_pos [of x] by (simp add: nearest_double_def field_simps)
  then have "\<bar>nearest_double x - x\<bar> = \<bar>of_int (round_half_even (x / ulp x)) - x / ulp x\<bar> * ulp x"
    using ulp_pos [of x] by (simp add: abs_mult)
  also have "\<dots> \<le> 1 / 2 * ulp x"
    using round_half_even_error [of "x / ulp x"] ulp_pos [of x]
    by (intro mult_right_mono) simp_all
  finally show ?thesis by simp
qed


text \<open>
  The seconds of a timestamp less than \<open>2\<^sup>3\<^sup>4\<close> seconds from the epoch (the years 1426 to 2513):
  the nearest double of the quotient has the same integral part as the quotient itself.
\<close>

lemma unix_seconds:
  assumes "\<bar>t\<bar> < 17179869184000000"
  shows "int_of_float (timestamp t) = t sdiv 1000000"
proof -
  define x :: rat where "x = of_int t / 1000000"
  define r where "r = nearest_double x"
  from assms have "\<bar>of_int t :: rat\<bar> < 17179869184000000"
    by (simp flip: of_int_abs)
  then have small: "\<bar>x\<bar> < 17179869184" by (simp add: x_def)
  then have b34: "\<bar>x\<bar> < 2 powi 34" and b53: "\<bar>x\<bar> < 2 powi 53" by simp_all
  have err: "\<bar>r - x\<bar> \<le> 1 / 1048576"
  proof (cases "x = 0")
    case True
    then show ?thesis by (simp add: r_def nearest_double_def)
  next
    case False
    from ulp_le [OF False b34] have "ulp x \<le> 2 powi (- 19)" by simp
    then have "ulp x / 2 \<le> 1 / 1048576" by (simp add: power_int_minus)
    with nearest_double_error [of x] show ?thesis by (simp add: r_def)
  qed
  show ?thesis
  proof (cases "0 \<le> t")
    case True
    define n where "n = t div 1000000"
    have t: "t = n * 1000000 + t mod 1000000" by (simp add: n_def)
    have m: "0 \<le> t mod 1000000" "t mod 1000000 \<le> 999999" by simp_all
    from True have n0: "0 \<le> n" by (simp add: n_def pos_imp_zdiv_nonneg_iff)
    have lo: "of_int n \<le> x"
    proof -
      from t m(1) have "n * 1000000 \<le> t" by linarith
      then have "(of_int (n * 1000000) :: rat) \<le> of_int t" by (simp only: of_int_le_iff)
      then show ?thesis by (simp add: x_def)
    qed
    have hi: "x \<le> of_int n + 999999 / 1000000"
    proof -
      from t m(2) have "t \<le> n * 1000000 + 999999" by linarith
      then have "(of_int t :: rat) \<le> of_int (n * 1000000 + 999999)" by (simp only: of_int_le_iff)
      then show ?thesis by (simp add: x_def field_simps)
    qed
    from nearest_double_ge [OF b53 lo] have rlo: "of_int n \<le> r" by (simp add: r_def)
    from err have "r - x \<le> 1 / 1048576" by linarith
    with hi have rhi: "r < of_int n + 1" by linarith
    from rlo rhi have "\<lfloor>r\<rfloor> = n" by (simp add: floor_unique)
    moreover from rlo n0 have "0 \<le> r" by (meson of_int_0_le_iff order_trans)
    moreover from True have "t sdiv 1000000 = n"
      by (simp add: signed_divide_int_def sgn_if n_def)
    ultimately show ?thesis
      by (simp add: int_of_float_def timestamp_def r_def x_def)
  next
    case False
    define n where "n = (- t) div 1000000"
    have t: "- t = n * 1000000 + (- t) mod 1000000" by (simp add: n_def)
    have m: "0 \<le> (- t) mod 1000000" "(- t) mod 1000000 \<le> 999999" by simp_all
    from False have n0: "0 \<le> n" by (simp add: n_def pos_imp_zdiv_nonneg_iff)
    have hi: "x \<le> of_int (- n)"
    proof -
      from t m(1) have "t \<le> - n * 1000000" by linarith
      then have "(of_int t :: rat) \<le> of_int (- n * 1000000)" by (simp only: of_int_le_iff)
      then show ?thesis by (simp add: x_def field_simps)
    qed
    have lo: "of_int (- n) - 999999 / 1000000 \<le> x"
    proof -
      from t m(2) have "- n * 1000000 - 999999 \<le> t" by linarith
      then have "(of_int (- n * 1000000 - 999999) :: rat) \<le> of_int t" by (simp only: of_int_le_iff)
      then show ?thesis by (simp add: x_def field_simps)
    qed
    from nearest_double_le [OF b53 hi] have rhi: "r \<le> of_int (- n)" by (simp add: r_def)
    from err have "x - r \<le> 1 / 1048576" by linarith
    with lo have rlo: "of_int (- n) - 1 < r" by linarith
    from rlo rhi have c: "\<lceil>r\<rceil> = - n" by (simp add: ceiling_unique)
    from False have s: "t sdiv 1000000 = - n"
      by (simp add: signed_divide_int_def sgn_if n_def)
    show ?thesis
    proof (cases "0 \<le> r")
      case True
      with rhi n0 have "r = 0" "n = 0" by simp_all
      with s show ?thesis by (simp add: int_of_float_def timestamp_def r_def x_def)
    next
      case F: False
      with c s show ?thesis by (simp add: int_of_float_def timestamp_def r_def x_def)
    qed
  qed
qed

text \<open>
  Later timestamps can round up to the next whole second: the last microsecond of the year
  9999 has the seconds of the first one of the year 10000.
\<close>

lemma timestamp_year_9999:
  "int_of_float (timestamp 253402300799999999) = 253402300800"
  by code_simp

lemma floor_year_9999: "\<lfloor>of_int 253402300799999999 / (1000000 :: rat)\<rfloor> = 253402300799"
  by (simp add: floor_unique)

text \<open>
  Milliseconds less than \<open>2\<^sup>3\<^sup>3\<close> seconds from the epoch (the years 1698 to 2241) become exactly
  that many milliseconds: the three roundings of \<^verbatim>\<open>fromtimestamp(x / 1000.0)\<close> add up to less
  than one microsecond. Later ones can be a microsecond off.
\<close>

lemma int_of_float_fraction: "\<bar>x - of_int (int_of_float x)\<bar> < 1"
proof (cases "0 \<le> x")
  case True
  have "of_int \<lfloor>x\<rfloor> \<le> x" "x < of_int \<lfloor>x\<rfloor> + 1" by linarith+
  with True show ?thesis by (simp add: int_of_float_def abs_less_iff)
next
  case False
  have "of_int \<lceil>x\<rceil> - 1 < x" "x \<le> of_int \<lceil>x\<rceil>" by linarith+
  with False show ?thesis by (simp add: int_of_float_def abs_less_iff)
qed

lemma milliseconds_exact:
  assumes "\<bar>ms\<bar> < 8589934592000"
  shows "fromtimestamp_utc (nearest_double (nearest_double (of_int ms) / 1000)) = Inr (ms * 1000)"
proof -
  define x :: rat where "x = of_int ms / 1000"
  define d where "d = nearest_double x"
  define i where "i = int_of_float d"
  define y where "y = (d - of_int i) * 1000000"
  define r where "r = nearest_double y"
  define us where "us = round_half_even r"
  from assms have "\<bar>ms\<bar> < 2 ^ 53" by simp
  then have n: "nearest_double (of_int ms) = of_int ms" by (rule nearest_double_of_int)
  from assms have "\<bar>of_int ms :: rat\<bar> < 8589934592000" by (simp flip: of_int_abs)
  then have bx: "\<bar>x\<bar> < 2 powi 33" by (simp add: x_def)
  have "\<bar>d - x\<bar> \<le> 1 / 2097152"
  proof (cases "x = 0")
    case True
    then show ?thesis by (simp add: d_def nearest_double_def)
  next
    case False
    from ulp_le [OF False bx] have "ulp x \<le> 2 powi (- 20)" by simp
    then have "ulp x / 2 \<le> 1 / 2097152" by (simp add: power_int_minus)
    with nearest_double_error [of x] show ?thesis by (simp add: d_def)
  qed
  then have ex: "d - x \<le> 1 / 2097152" "x - d \<le> 1 / 2097152" by linarith+
  have "\<bar>d - of_int i\<bar> < 1"
    unfolding i_def by (rule int_of_float_fraction)
  then have "d - of_int i < 1" "of_int i - d < 1" by linarith+
  then have "y < 1000000" "- 1000000 < y" by (simp_all add: y_def)
  then have "\<bar>y\<bar> < 1000000" by linarith
  then have bnd: "\<bar>y\<bar> < 2 powi 20" by simp
  have "\<bar>r - y\<bar> \<le> 1 / 17179869184"
  proof (cases "y = 0")
    case True
    then show ?thesis by (simp add: r_def nearest_double_def)
  next
    case False
    from ulp_le [OF False bnd] have "ulp y \<le> 2 powi (- 33)" by simp
    then have "ulp y / 2 \<le> 1 / 17179869184" by (simp add: power_int_minus)
    with nearest_double_error [of y] show ?thesis by (simp add: r_def)
  qed
  then have ey: "r - y \<le> 1 / 17179869184" "y - r \<le> 1 / 17179869184" by linarith+
  have "\<bar>of_int us - r\<bar> \<le> 1 / 2"
    unfolding us_def by (rule round_half_even_error)
  then have eu: "of_int us - r \<le> 1 / 2" "r - of_int us \<le> 1 / 2" by linarith+
  have e: "(of_int (i * 1000000 + us - ms * 1000) :: rat)
          = (of_int us - r) + (r - y) + (d - x) * 1000000"
    by (simp add: y_def x_def algebra_simps)
  define z where "z = (d - x) * 1000000"
  from ex(1) have "(d - x) * 1000000 \<le> 1 / 2097152 * 1000000" by (rule mult_right_mono) simp
  then have z1: "z \<le> 15625 / 32768" by (simp add: z_def)
  from ex(2) have "(x - d) * 1000000 \<le> 1 / 2097152 * 1000000" by (rule mult_right_mono) simp
  moreover have "(x - d) * 1000000 = - z" by (simp add: z_def algebra_simps)
  ultimately have z2: "- z \<le> 15625 / 32768" by simp
  from eu ey z1 z2 have "(of_int us - r) + (r - y) + z < 1"
    and "- 1 < (of_int us - r) + (r - y) + z" by linarith+
  then have "(of_int us - r) + (r - y) + (d - x) * 1000000 < 1"
    and "- 1 < (of_int us - r) + (r - y) + (d - x) * 1000000" by (simp_all only: z_def)
  then have "(of_int (i * 1000000 + us - ms * 1000) :: rat) < of_int 1"
    and "(of_int (- 1) :: rat) < of_int (i * 1000000 + us - ms * 1000)"
    by (simp_all only: e of_int_1 of_int_minus)
  then have "i * 1000000 + us - ms * 1000 < 1" "- 1 < i * 1000000 + us - ms * 1000"
    by (simp_all only: of_int_less_iff)
  then have total: "i * 1000000 + us = ms * 1000" by linarith
  from assms have "- 62135596800000000 \<le> ms * 1000" "ms * 1000 \<le> 253402300799999999"
    by linarith+
  then have range: "- 62135596800000000 \<le> i * 1000000 + us \<and> i * 1000000 + us \<le> 253402300799999999"
    by (simp only: total)
  have "fromtimestamp_utc d =
      (if - 62135596800000000 \<le> i * 1000000 + us \<and> i * 1000000 + us \<le> 253402300799999999
       then Inr (i * 1000000 + us) else Inl DateOutOfRange)"
    unfolding fromtimestamp_utc_def Let_def us_def r_def y_def i_def by (rule refl)
  also have "\<dots> = Inr (i * 1000000 + us)" using range by (simp only: if_True simp_thms)
  finally have "fromtimestamp_utc d = Inr (ms * 1000)" by (simp only: total)
  then show ?thesis by (simp only: n d_def x_def)
qed

lemma milliseconds_off_by_one:
  "fromtimestamp_utc (nearest_double (nearest_double (of_int 8589934592001) / 1000))
     = Inr 8589934592000999"
  by code_simp

section \<open>Backfilled values\<close>

lemma sdiv_nonneg: "0 \<le> t \<Longrightarrow> t sdiv 1000000 = \<lfloor>of_int t / (1000000 :: rat)\<rfloor>"
proof -
  assume "0 \<le> t"
  then have "t sdiv 1000000 = t div 1000000"
    by (simp add: signed_divide_int_def sgn_if)
  also have "\<dots> = \<lfloor>of_int t / (of_int 1000000 :: rat)\<rfloor>"
    by (rule floor_divide_of_int_eq [symmetric])
  finally show ?thesis by simp
qed

lemma sdiv_negative: "t < 0 \<Longrightarrow> t sdiv 1000000 = \<lceil>of_int t / (1000000 :: rat)\<rceil>"
proof -
  assume "t < 0"
  then have "t sdiv 1000000 = - ((- t) div 1000000)"
    by (simp add: signed_divide_int_def sgn_if)
  also have "\<dots> = - \<lfloor>of_int (- t) / (of_int 1000000 :: rat)\<rfloor>"
    by (simp only: floor_divide_of_int_eq)
  also have "\<dots> = \<lceil>of_int t / (1000000 :: rat)\<rceil>"
    by (simp add: ceiling_def)
  finally show ?thesis .
qed

lemma number_is_finite: "number_of v = Some ms \<Longrightarrow> \<not> non_finite v"
  by (cases v) simp_all

lemma timestamp_fields_other:
  "timestamp_fields fs data update_data = Inr P \<Longrightarrow> k \<notin> set fs \<Longrightarrow>
     map_of P k = map_of update_data k"
proof (induction fs arbitrary: update_data)
  case Nil
  then show ?case by simp
next
  case (Cons field fs)
  from Cons.prems(2) have k: "k \<noteq> field" "k \<notin> set fs" by auto
  have "\<exists>acc. timestamp_fields fs data acc = Inr P \<and> map_of acc k = map_of update_data k"
  proof (cases "data field")
    case None
    with Cons.prems show ?thesis by auto
  next
    case (Some v)
    with Cons.prems have nf: "\<not> non_finite v" by (auto split: if_splits)
    show ?thesis
    proof (cases "number_of v")
      case None
      with Cons.prems Some nf show ?thesis by auto
    next
      case Some2: (Some ms)
      show ?thesis
      proof (cases "fromtimestamp_utc (nearest_double (ms / 1000))")
        case (Inl e)
        with Cons.prems Some Some2 nf show ?thesis by simp
      next
        case (Inr t)
        let ?acc = "AList.update field (SetTo (VTime t)) update_data"
        from Cons.prems Some Some2 Inr nf have "timestamp_fields fs data ?acc = Inr P" by simp
        moreover from k have "map_of ?acc k = map_of update_data k" by (simp add: update_conv')
        ultimately show ?thesis by blast
      qed
    qed
  qed
  then obtain acc where "timestamp_fields fs data acc = Inr P"
    and "map_of acc k = map_of update_data k" by blast
  with Cons.IH [OF this(1) k(2)] show ?case by simp
qed

lemma timestamp_fields_at:
  assumes "distinct fs" and "field \<in> set fs"
    and "data field = Some v" and "number_of v = Some ms"
    and "timestamp_fields fs data update_data = Inr P"
  shows "\<exists>t. fromtimestamp_utc (nearest_double (ms / 1000)) = Inr t \<and>
             map_of P field = Some (SetTo (VTime t))"
  using assms(1,2,5)
proof (induction fs arbitrary: update_data)
  case Nil
  then show ?case by simp
next
  case (Cons f fs)
  from assms(4) have nf: "\<not> non_finite v" by (rule number_is_finite)
  show ?case
  proof (cases "f = field")
    case True
    show ?thesis
    proof (cases "fromtimestamp_utc (nearest_double (ms / 1000))")
      case (Inl e)
      with Cons.prems(3) True assms(3,4) nf show ?thesis by simp
    next
      case (Inr t)
      let ?acc = "AList.update field (SetTo (VTime t)) update_data"
      from Cons.prems(3) True assms(3,4) Inr nf have "timestamp_fields fs data ?acc = Inr P" by simp
      moreover from Cons.prems(1) True have "field \<notin> set fs" by simp
      ultimately have "map_of P field = map_of ?acc field" by (rule timestamp_fields_other)
      with Inr show ?thesis by (simp add: update_conv')
    qed
  next
    case False
    with Cons.prems(2) have mem: "field \<in> set fs" by simp
    from Cons.prems(1) have dist: "distinct fs" by simp
    have "\<exists>acc. timestamp_fields fs data acc = Inr P"
      using Cons.prems(3) by (auto split: option.splits sum.splits if_splits)
    then obtain acc where "timestamp_fields fs data acc = Inr P" ..
    from Cons.IH [OF dist mem this] show ?thesis .
  qed
qed

lemma timestamp_fields_total:
  assumes "\<forall>f \<in> set fs. \<forall>v. data f = Some v \<longrightarrow>
             \<not> non_finite v \<and>
             (\<forall>ms. number_of v = Some ms \<longrightarrow>
                (\<exists>t. fromtimestamp_utc (nearest_double (ms / 1000)) = Inr t))"
  shows "\<exists>P. timestamp_fields fs data update_data = Inr P"
  using assms
proof (induction fs arbitrary: update_data)
  case Nil
  show ?case by simp
next
  case (Cons f fs)
  from Cons.prems have rest: "\<forall>f \<in> set fs. \<forall>v. data f = Some v \<longrightarrow>
             \<not> non_finite v \<and>
             (\<forall>ms. number_of v = Some ms \<longrightarrow>
                (\<exists>t. fromtimestamp_utc (nearest_double (ms / 1000)) = Inr t))"
    by (meson list.set_intros(2))
  show ?case
  proof (cases "data f")
    case None
    with Cons.IH [OF rest] show ?thesis by simp
  next
    case (Some v)
    with Cons.prems have nf: "\<not> non_finite v" by simp
    show ?thesis
    proof (cases "number_of v")
      case None
      with Some nf Cons.IH [OF rest] show ?thesis by simp
    next
      case Some2: (Some ms)
      with Some Cons.prems obtain t
        where "fromtimestamp_utc (nearest_double (ms / 1000)) = Inr t" by auto
      with Some Some2 nf Cons.IH [OF rest] show ?thesis by simp
    qed
  qed
qed

lemma unix_fields_listings:
  assumes "field \<in> {''availableFrom'', ''availableUntil''}" and "data field = Some (VTime t)"
  shows "map_of (unix_fields [''availableFrom'', ''availableUntil''] data []) (field @ ''_unix'')
           = Some (SetTo (VInt (int_of_float (timestamp t))))"
proof -
  from assms(1) consider "field = ''availableFrom''" | "field = ''availableUntil''" by auto
  then show ?thesis
  proof cases
    case 1
    with assms(2) show ?thesis
      by (auto simp: update_conv' split: option.splits val.splits)
  next
    case 2
    with assms(2) show ?thesis
      by (auto simp: update_conv' split: option.splits val.splits)
  qed
qed


text \<open>
  C4, as the code has it. Let the \<^verbatim>\<open>createdAt\<close> and \<^verbatim>\<open>updatedAt\<close> of a listing, if numeric,
  denote dates that \<^verbatim>\<open>datetime\<close> can hold. Then the payload is built, and
  \<^item> for \<^verbatim>\<open>availableFrom\<close> and \<^verbatim>\<open>availableUntil\<close> holding a timestamp of \<open>t\<close> microseconds, the
    \<^verbatim>\<open>_unix\<close> field is set to the integral part of the double nearest to \<open>t / 10\<^sup>6\<close>; for a
    timestamp less than \<open>2\<^sup>3\<^sup>4\<close> seconds from the epoch that is the seconds of \<open>t\<close> with the
    fraction dropped: rounded down at or after the epoch, rounded up before it;
  \<^item> for \<^verbatim>\<open>createdAt\<close> and \<^verbatim>\<open>updatedAt\<close> holding an integer \<open>ms\<close> less than \<open>2\<^sup>3\<^sup>3\<close> seconds from
    the epoch, the field is set to the timestamp of \<open>ms\<close> milliseconds, that is \<open>1000 * ms\<close>
    microseconds.
\<close>

theorem backfill_values:
  assumes "\<forall>f \<in> set [''createdAt'', ''updatedAt'']. \<forall>v. data f = Some v \<longrightarrow>
             \<not> non_finite v \<and>
             (\<forall>ms. number_of v = Some ms \<longrightarrow>
                (\<exists>t. fromtimestamp_utc (nearest_double (ms / 1000)) = Inr t))"
  shows "\<exists>P. schema_listings_update data = Inr P \<and>
           (\<forall>field t. field \<in> {''availableFrom'', ''availableUntil''} \<and> data field = Some (VTime t) \<longrightarrow>
              map_of P (field @ ''_unix'') = Some (SetTo (VInt (int_of_float (timestamp t)))) \<and>
              (\<bar>t\<bar> < 17179869184000000 \<longrightarrow>
                 int_of_float (timestamp t) = t sdiv 1000000 \<and>
                 (0 \<le> t \<longrightarrow> t sdiv 1000000 = \<lfloor>of_int t / (1000000 :: rat)\<rfloor>) \<and>
                 (t < 0 \<longrightarrow> t sdiv 1000000 = \<lceil>of_int t / (1000000 :: rat)\<rceil>))) \<and>
           (\<forall>field ms. field \<in> {''createdAt'', ''updatedAt''} \<and> data field = Some (VInt ms) \<and>
                \<bar>ms\<bar> < 8589934592000 \<longrightarrow>
              map_of P field = Some (SetTo (VTime (ms * 1000))))"
proof -
  let ?acc = "unix_fields [''availableFrom'', ''availableUntil''] data []"
  from timestamp_fields_total [OF assms] obtain P
    where P: "timestamp_fields [''createdAt'', ''updatedAt''] data ?acc = Inr P" by blast
  then have body: "schema_listings_update data = Inr P"
    by (simp add: schema_listings_update_def)
  have unix: "\<forall>field t. field \<in> {''availableFrom'', ''availableUntil''} \<and> data field = Some (VTime t) \<longrightarrow>
              map_of P (field @ ''_unix'') = Some (SetTo (VInt (int_of_float (timestamp t)))) \<and>
              (\<bar>t\<bar> < 17179869184000000 \<longrightarrow>
                 int_of_float (timestamp t) = t sdiv 1000000 \<and>
                 (0 \<le> t \<longrightarrow> t sdiv 1000000 = \<lfloor>of_int t / (1000000 :: rat)\<rfloor>) \<and>
                 (t < 0 \<longrightarrow> t sdiv 1000000 = \<lceil>of_int t / (1000000 :: rat)\<rceil>))"
  proof (intro allI impI)
    fix field :: string and t :: int
    assume a: "field \<in> {''availableFrom'', ''availableUntil''} \<and> data field = Some (VTime t)"
    then have "field @ ''_unix'' \<notin> set [''createdAt'', ''updatedAt'']" by auto
    with P have "map_of P (field @ ''_unix'') = map_of ?acc (field @ ''_unix'')"
      by (rule timestamp_fields_other)
    also from a have "\<dots> = Some (SetTo (VInt (int_of_float (timestamp t))))"
      by (intro unix_fields_listings) simp_all
    finally have staged:
      "map_of P (field @ ''_unix'') = Some (SetTo (VInt (int_of_float (timestamp t))))" .
    have "\<bar>t\<bar> < 17179869184000000 \<longrightarrow>
                 int_of_float (timestamp t) = t sdiv 1000000 \<and>
                 (0 \<le> t \<longrightarrow> t sdiv 1000000 = \<lfloor>of_int t / (1000000 :: rat)\<rfloor>) \<and>
                 (t < 0 \<longrightarrow> t sdiv 1000000 = \<lceil>of_int t / (1000000 :: rat)\<rceil>)"
      using unix_seconds [of t] sdiv_nonneg [of t] sdiv_negative [of t] by blast
    with staged
    show "map_of P (field @ ''_unix'') = Some (SetTo (VInt (int_of_float (timestamp t)))) \<and>
              (\<bar>t\<bar> < 17179869184000000 \<longrightarrow>
                 int_of_float (timestamp t) = t sdiv 1000000 \<and>
                 (0 \<le> t \<longrightarrow> t sdiv 1000000 = \<lfloor>of_int t / (1000000 :: rat)\<rfloor>) \<and>
                 (t < 0 \<longrightarrow> t sdiv 1000000 = \<lceil>of_int t / (1000000 :: rat)\<rceil>))" ..
  qed
  have stamp: "\<forall>field ms. field \<in> {''createdAt'', ''updatedAt''} \<and> data field = Some (VInt ms) \<and>
                \<bar>ms\<bar> < 8589934592000 \<longrightarrow>
              map_of P field = Some (SetTo (VTime (ms * 1000)))"
  proof (intro allI impI)
    fix field :: string and ms :: int
    assume a: "field \<in> {''createdAt'', ''updatedAt''} \<and> data field = Some (VInt ms) \<and>
                \<bar>ms\<bar> < 8589934592000"
    then have mem: "field \<in> set [''createdAt'', ''updatedAt'']" by simp
    have dist: "distinct [''createdAt'', ''updatedAt'']" by simp
    from a have v: "data field = Some (VInt ms)" and small: "\<bar>ms\<bar> < 8589934592000" by simp_all
    have n: "number_of (VInt ms) = Some (nearest_double (of_int ms))" by simp
    from timestamp_fields_at [OF dist mem v n P] obtain t
      where "fromtimestamp_utc (nearest_double (nearest_double (of_int ms) / 1000)) = Inr t"
        and "map_of P field = Some (SetTo (VTime t))" by blast
    with milliseconds_exact [OF small]
    show "map_of P field = Some (SetTo (VTime (ms * 1000)))" by simp
  qed
  from body unix stamp show ?thesis by blast
qed

text \<open>
  \<^verbatim>\<open>availableFrom\<close> at 1700000000.5 seconds gives \<^verbatim>\<open>availableFrom_unix = 1700000000\<close>, and
  \<^verbatim>\<open>createdAt = 1700000000000\<close> becomes the timestamp at 1700000000 seconds.
\<close>

theorem backfill_values_witness:
  "\<exists>P. schema_listings_update backfill_listing = Inr P \<and>
       map_of P ''availableFrom_unix'' = Some (SetTo (VInt 1700000000)) \<and>
       map_of P ''createdAt'' = Some (SetTo (VTime 1700000000000000))"
proof -
  have h: "\<forall>f \<in> set [''createdAt'', ''updatedAt'']. \<forall>v. backfill_listing f = Some v \<longrightarrow>
             \<not> non_finite v \<and>
             (\<forall>ms. number_of v = Some ms \<longrightarrow>
                (\<exists>t. fromtimestamp_utc (nearest_double (ms / 1000)) = Inr t))"
  proof (intro ballI allI impI)
    fix f v
    assume f: "f \<in> set [''createdAt'', ''updatedAt'']"
      and a: "backfill_listing f = Some v"
    have e: "fromtimestamp_utc (nearest_double (nearest_double (of_int 1700000000000) / 1000))
               = Inr (1700000000000 * 1000)"
      by (rule milliseconds_exact) simp
    from f consider "f = ''createdAt''" | "f = ''updatedAt''" by auto
    then show "\<not> non_finite v \<and>
             (\<forall>ms. number_of v = Some ms \<longrightarrow>
                (\<exists>t. fromtimestamp_utc (nearest_double (ms / 1000)) = Inr t))"
    proof cases
      case 1
      with a have "v = VInt 1700000000000" by (simp add: backfill_listing_def)
      with e show ?thesis by auto
    next
      case 2
      with a show ?thesis by (simp add: backfill_listing_def)
    qed
  qed
  from backfill_values [OF h] obtain P
    where P: "schema_listings_update backfill_listing = Inr P"
      and u: "\<forall>field t. field \<in> {''availableFrom'', ''availableUntil''} \<and>
                backfill_listing field = Some (VTime t) \<longrightarrow>
              map_of P (field @ ''_unix'') = Some (SetTo (VInt (int_of_float (timestamp t)))) \<and>
              (\<bar>t\<bar> < 17179869184000000 \<longrightarrow>
                 int_of_float (timestamp t) = t sdiv 1000000 \<and>
                 (0 \<le> t \<longrightarrow> t sdiv 1000000 = \<lfloor>of_int t / (1000000 :: rat)\<rfloor>) \<and>
                 (t < 0 \<longrightarrow> t sdiv 1000000 = \<lceil>of_int t / (1000000 :: rat)\<rceil>))"
      and c: "\<forall>field ms. field \<in> {''createdAt'', ''updatedAt''} \<and>
                backfill_listing field = Some (VInt ms) \<and> \<bar>ms\<bar> < 8589934592000 \<longrightarrow>
              map_of P field = Some (SetTo (VTime (ms * 1000)))"
    by (elim exE conjE)
  have "''availableFrom'' \<in> {''availableFrom'', ''availableUntil''} \<and>
        backfill_listing ''availableFrom'' = Some (VTime 1700000000500000)"
    by (simp add: backfill_listing_def)
  from u [rule_format, OF this]
  have st: "map_of P (''availableFrom'' @ ''_unix'')
              = Some (SetTo (VInt (int_of_float (timestamp 1700000000500000))))"
    and sec: "\<bar>1700000000500000 :: int\<bar> < 17179869184000000 \<longrightarrow>
                 int_of_float (timestamp 1700000000500000) = 1700000000500000 sdiv 1000000 \<and>
                 (0 \<le> (1700000000500000 :: int) \<longrightarrow>
                    (1700000000500000 :: int) sdiv 1000000
                      = \<lfloor>of_int 1700000000500000 / (1000000 :: rat)\<rfloor>) \<and>
                 ((1700000000500000 :: int) < 0 \<longrightarrow>
                    (1700000000500000 :: int) sdiv 1000000
                      = \<lceil>of_int 1700000000500000 / (1000000 :: rat)\<rceil>)"
    by (rule conjunct1, rule conjunct2)
  have "\<bar>1700000000500000 :: int\<bar> < 17179869184000000" by simp
  from mp [OF sec this]
  have "int_of_float (timestamp 1700000000500000) = 1700000000500000 sdiv 1000000"
    by (rule conjunct1)
  moreover have "(1700000000500000 :: int) sdiv 1000000 = 1700000000"
    by (simp add: signed_divide_int_def)
  ultimately have "int_of_float (timestamp 1700000000500000) = 1700000000" by (rule trans)
  with st have a: "map_of P ''availableFrom_unix'' = Some (SetTo (VInt 1700000000))" by simp
  have "''createdAt'' \<in> {''createdAt'', ''updatedAt''} \<and>
        backfill_listing ''createdAt'' = Some (VInt 1700000000000) \<and>
        \<bar>1700000000000 :: int\<bar> < 8589934592000"
    by (simp add: backfill_listing_def)
  from c [rule_format, OF this]
  have b: "map_of P ''createdAt'' = Some (SetTo (VTime 1700000000000000))" by simp
  from P a b show ?thesis by (intro exI [of _ P] conjI)
qed

text \<open>
  Half a second before the epoch the script stores 0, while the floor of -0.5 is -1. And
  for the last microsecond of the year 9999 it stores 253402300800, the seconds of the
  next year, while the floor is 253402300799.
\<close>

theorem backfill_values_counterexample:
  "schema_listings_update [''availableFrom'' \<mapsto> VTime (- 500000)] =
     Inr [(''availableFrom_unix'', SetTo (VInt 0))] \<and>
   \<lfloor>of_int (- 500000) / (1000000 :: rat)\<rfloor> = - 1 \<and>
   schema_listings_update [''availableUntil'' \<mapsto> VTime 253402300799999999] =
     Inr [(''availableUntil_unix'', SetTo (VInt 253402300800))] \<and>
   \<lfloor>of_int 253402300799999999 / (1000000 :: rat)\<rfloor> = 253402300799"
proof -
  have "int_of_float (timestamp (- 500000)) = (- 500000) sdiv 1000000"
    by (rule unix_seconds) simp
  also have "\<dots> = 0" by (simp add: signed_divide_int_def)
  finally have "schema_listings_update [''availableFrom'' \<mapsto> VTime (- 500000)] =
     Inr [(''availableFrom_unix'', SetTo (VInt 0))]"
    by (simp add: schema_listings_update_def)
  moreover have "\<lfloor>of_int (- 500000) / (1000000 :: rat)\<rfloor> = - 1"
    by (simp add: floor_unique)
  moreover have "schema_listings_update [''availableUntil'' \<mapsto> VTime 253402300799999999] =
     Inr [(''availableUntil_unix'', SetTo (VInt 253402300800))]"
    by (simp add: schema_listings_update_def timestamp_year_9999)
  ultimately show ?thesis using floor_year_9999 by (intro conjI)
qed

text \<open>
  A numeric \<^verbatim>\<open>createdAt\<close> that is \<^verbatim>\<open>nan\<close> ends the run, and one of \<open>2\<^sup>3\<^sup>3\<close> seconds and a
  millisecond is stored a microsecond early.
\<close>

lemma created_at_nan_raises:
  "schema_listings_update [''createdAt'' \<mapsto> VNaN] = Inl DateOutOfRange"
  by (simp add: schema_listings_update_def)

lemma created_at_off_by_one:
  "schema_listings_update [''createdAt'' \<mapsto> VInt 8589934592001] =
     Inr [(''createdAt'', SetTo (VTime 8589934592000999))]"
proof -
  have "nearest_double (of_int 8589934592001) = of_int 8589934592001"
    by (rule nearest_double_of_int) simp
  with milliseconds_off_by_one show ?thesis
    by (simp add: schema_listings_update_def)
qed

section \<open>Start-up failures\<close>

text \<open>
  C9. When the configuration module cannot be imported, or the credential file it names
  does not exist, the script exits with status 1, has made no access to the document store
  (no collection streamed, no batch committed) and has printed exactly one error message:
  the "configuration not found" message, followed by the line naming the path searched, in
  the first case, and the "credential file not found" message in the second. The exit
  raised inside the \<^verbatim>\<open>try\<close> block is not caught by \<^verbatim>\<open>except Exception\<close>, so no second
  message follows.
\<close>

theorem config_error_fail_fast:
  assumes "\<not> config_importable env \<or> \<not> key_file_exists env"
  shows "exit_status (script env) = 1 \<and>
         accesses (script env) = [] \<and>
         length (filter is_error (printed (script env))) = 1 \<and>
         (\<not> config_importable env \<longrightarrow> printed (script env) = [ConfigNotFound, ConfigSearchPath]) \<and>
         (config_importable env \<and> key_defined env \<longrightarrow> printed (script env) = [CredentialsNotFound])"
proof (cases "config_importable env")
  case False
  then show ?thesis by (simp add: script_def is_error_def)
next
  case True
  with assms have k: "\<not> key_file_exists env" by simp
  show ?thesis
  proof (cases "key_defined env")
    case True
    with \<open>config_importable env\<close> k show ?thesis
      by (simp add: script_def main_def init_firebase_def is_error_def)
  next
    case False
    with \<open>config_importable env\<close> show ?thesis
      by (simp add: script_def main_def init_firebase_def is_error_def)
  qed
qed

text \<open>The configuration is found, the credential file is not.\<close>

theorem config_error_fail_fast_witness:
  "\<not> key_file_exists no_key_file \<and>
   printed (script no_key_file) = [CredentialsNotFound] \<and>
   exit_status (script no_key_file) = 1 \<and>
   accesses (script no_key_file) = []"
proof -
  have h: "\<not> config_importable no_key_file \<or> \<not> key_file_exists no_key_file"
    by (simp add: no_key_file_def)
  have "config_importable no_key_file \<and> key_defined no_key_file" "\<not> key_file_exists no_key_file"
    by (simp_all add: no_key_file_def)
  with config_error_fail_fast [OF h] show ?thesis by simp
qed

text \<open>With the credential file in place the same environment does reach the store.\<close>

lemma script_reaches_store:
  "accesses (script (no_key_file\<lparr>key_file_exists := True\<rparr>)) =
     [Stream ''listings'',
      Commit [(''l1'', [(''has_wifi'', SetTo (VBool True)), (''hasWifi'', DELETE_FIELD)])],
      Stream ''users'']"
proof -
  have u: "rename_fields USERS_FIELD_MAP [''hasWifi'' \<mapsto> VBool True] [] = []"
    "rename_fields USERS_FIELD_MAP [''title'' \<mapsto> VStr ''Loft''] [] = []"
    by (simp_all add: USERS_FIELD_MAP_def)
  have "committed (snd (migrate_collection USERS_FIELD_MAP two_listings)) = []"
    by (simp add: migrate_collection_def run_migration_def final_commit_def two_listings_def
        u visit_def init_state_def)
  then show ?thesis
    by (simp add: script_def main_def init_firebase_def no_key_file_def run_collection_def
        two_listings_committed Let_def)
qed

section \<open>Running a migration twice\<close>

text \<open>
  C1 fails for \<^verbatim>\<open>migrate_name_fields_i18n.py\<close>. The script tests for the key
  \<^verbatim>\<open>sourceLanguage\<close> but writes \<^verbatim>\<open>source_language\<close>, and it deletes \<^verbatim>\<open>sourceLanguage\<close>. For a
  listing with \<^verbatim>\<open>sourceLanguage = 'es'\<close> the first run deletes that field and leaves an empty
  document; the second run, over the result of the first, stages and commits a further
  change, \<^verbatim>\<open>source_language = 'en'\<close>.
\<close>

theorem second_run_changes_fields:
  "committed (snd (i18n_migrate_listings language_listing)) =
     [[(''l4'', [(''sourceLanguage'', DELETE_FIELD)])]] \<and>
   store_after (committed (snd (i18n_migrate_listings language_listing))) language_listing =
     [(''l4'', Map.empty)] \<and>
   committed (snd (i18n_migrate_listings
       (store_after (committed (snd (i18n_migrate_listings language_listing))) language_listing))) =
     [[(''l4'', [(''source_language'', SetTo (VStr ''en''))])]]"
proof -
  have p1: "i18n_update listings_fields_to_rename listings_fields_to_delete
              [''sourceLanguage'' \<mapsto> VStr ''es''] = [(''sourceLanguage'', DELETE_FIELD)]"
    by (simp add: i18n_update_def add_source_language_def listings_fields_to_rename_def
        listings_fields_to_delete_def)
  have p2: "i18n_update listings_fields_to_rename listings_fields_to_delete Map.empty
              = [(''source_language'', SetTo (VStr ''en''))]"
    by (simp add: i18n_update_def add_source_language_def listings_fields_to_rename_def
        listings_fields_to_delete_def)
  have c1: "committed (snd (i18n_migrate_listings language_listing)) =
     [[(''l4'', [(''sourceLanguage'', DELETE_FIELD)])]]"
    by (simp add: language_listing_def i18n_migrate_listings_def run_migration_def
        final_commit_def p1 visit_def stage_update_def commit_def init_state_def Let_def)
  have s1: "store_after (committed (snd (i18n_migrate_listings language_listing))) language_listing =
     [(''l4'', Map.empty)]"
    unfolding c1 by (simp add: store_after_def language_listing_def apply_update_def)
  have c2: "committed (snd (i18n_migrate_listings [(''l4'', Map.empty)])) =
     [[(''l4'', [(''source_language'', SetTo (VStr ''en''))])]]"
    by (simp add: i18n_migrate_listings_def run_migration_def
        final_commit_def p2 visit_def stage_update_def commit_def init_state_def Let_def)
  from c1 s1 c2 show ?thesis by simp
qed

lemma rename_fields_keys_present:
  "fst ` set (rename_fields field_map data update_data)
     \<subseteq> fst ` set update_data \<union>
        {k. \<exists>p \<in> set field_map. data (fst p) \<noteq> None \<and> (k = fst p \<or> k = snd p)}"
proof (induction field_map arbitrary: update_data)
  case Nil
  show ?case by simp
next
  case (Cons p field_map)
  obtain old_name new_name where p: "p = (old_name, new_name)" by (cases p)
  show ?case
  proof (cases "data old_name")
    case None
    with Cons [of update_data] p show ?thesis by auto
  next
    case (Some v)
    let ?acc = "AList.update old_name DELETE_FIELD (AList.update new_name (SetTo v) update_data)"
    have "fst ` set ?acc = {old_name, new_name} \<union> fst ` set update_data"
      by (simp add: dom_update) blast
    with Cons [of ?acc] have "fst ` set (rename_fields field_map data ?acc)
        \<subseteq> {old_name, new_name} \<union> fst ` set update_data \<union>
           {k. \<exists>p \<in> set field_map. data (fst p) \<noteq> None \<and> (k = fst p \<or> k = snd p)}"
      by simp
    with Some p show ?thesis by auto
  qed
qed

text \<open>
  The rename loop of \<^verbatim>\<open>migrate_case_style.py\<close> does test for the old shape: over a field map
  in which no name is both old and new (\<open>configured_maps_no_chain\<close>), the payload computed
  for a document after its first update is empty.
\<close>

lemma case_style_second_run_stages_nothing:
  assumes no_chain: "set (map fst field_map) \<inter> set (map snd field_map) = {}"
  shows "rename_fields field_map (apply_update (rename_fields field_map data []) data) [] = []"
proof -
  let ?P = "rename_fields field_map data []"
  have dist: "distinct (map fst ?P)" by (rule rename_fields_distinct) simp
  have disj: "fst ` set field_map \<inter> snd ` set field_map = {}"
    using no_chain by simp
  have "\<forall>p \<in> set field_map. apply_update ?P data (fst p) = None"
  proof
    fix p
    assume p: "p \<in> set field_map"
    obtain old_key new_key where pk: "p = (old_key, new_key)" by (cases p)
    from p pk have mem: "old_key \<in> fst ` set field_map" by force
    with disj have not_new: "old_key \<notin> snd ` set field_map" by blast
    show "apply_update ?P data (fst p) = None"
    proof (cases "data old_key")
      case None
      have "old_key \<notin> fst ` set ?P"
      proof
        assume "old_key \<in> fst ` set ?P"
        with rename_fields_keys_present [of field_map data "[]"]
        obtain q where "q \<in> set field_map" and "data (fst q) \<noteq> None"
          and "old_key = fst q \<or> old_key = snd q" by auto
        with None not_new show False by auto
      qed
      then have "apply_update ?P data old_key = data old_key"
        by (rule apply_update_untouched)
      with None pk show ?thesis by simp
    next
      case (Some v)
      from not_new have "\<forall>q \<in> set field_map. snd q = old_key \<longrightarrow> data (fst q) = None"
        by auto
      with p pk Some have "map_of ?P old_key = Some DELETE_FIELD"
        by (intro rename_fields_old [where new_key = new_key]) auto
      with pk show ?thesis by (simp add: apply_update_lookup [OF dist])
    qed
  qed
  then show ?thesis by (simp only: rename_fields_empty_iff)
qed

text \<open>
  Two more rules whose test does not look at what a first run left behind. The \<^verbatim>\<open>_unix\<close>
  rule of \<^verbatim>\<open>migrate_data_schema.py\<close> stages its field again for a listing that already has
  it, and the scalar rule of \<^verbatim>\<open>migrate_content_fields_i18n.py\<close> stages \<^verbatim>\<open>rental_type\<close> again
  for a listing that already holds the translated value \<^verbatim>\<open>room\<close>, a key that maps to
  itself. Both write the value that is already there.
\<close>

lemma unix_field_staged_again:
  "schema_listings_update
     [''availableFrom'' \<mapsto> VTime 1700000000000000, ''availableFrom_unix'' \<mapsto> VInt 1700000000]
     = Inr [(''availableFrom_unix'', SetTo (VInt 1700000000))]"
proof -
  have "int_of_float (timestamp 1700000000000000) = 1700000000000000 sdiv 1000000"
    by (rule unix_seconds) simp
  also have "\<dots> = 1700000000" by (simp add: signed_divide_int_def)
  finally show ?thesis by (simp add: schema_listings_update_def)
qed

lemma room_staged_again:
  "translate_fields listings_conversion_rules [''rental_type'' \<mapsto> VStr ''room''] [] =
     Inr [(''rental_type'', SetTo (VStr ''room''))]"
  by (simp add: listings_conversion_rules_def translate_field_def)

end
